theory Spec2Isabelle
  imports Complex_Main "HOL-Library.AList" "HOL-Library.Sublist"
begin

section \<open>Python strings\<close>

text \<open>
  A Python \<open>str\<close> is modelled as a \<open>string\<close>; a \<open>char\<close> stands for the code point
  of the same number, so the model covers text whose code points are below 256.
  \<open>is_space\<close> is \<open>str.isspace\<close> on one character, which is also what \<open>str.strip()\<close>
  removes and what \<open>\s\<close> matches in a \<open>str\<close> pattern of \<open>re\<close>; \<open>is_word\<close> is what \<open>\w\<close>
  matches there (alphanumerics and the underscore).
\<close>

definition is_space :: "char \<Rightarrow> bool" where
  "is_space c = (let n = (of_char c :: nat) in
     (9 \<le> n \<and> n \<le> 13) \<or> (28 \<le> n \<and> n \<le> 32) \<or> n = 133 \<or> n = 160)"

definition is_word :: "char \<Rightarrow> bool" where
  "is_word c = (let n = (of_char c :: nat) in
     (48 \<le> n \<and> n \<le> 57) \<or> (65 \<le> n \<and> n \<le> 90) \<or> n = 95 \<or> (97 \<le> n \<and> n \<le> 122)
     \<or> n = 170 \<or> n = 178 \<or> n = 179 \<or> n = 181 \<or> n = 185 \<or> n = 186
     \<or> (188 \<le> n \<and> n \<le> 190) \<or> (192 \<le> n \<and> n \<le> 214)
     \<or> (216 \<le> n \<and> n \<le> 246) \<or> (248 \<le> n \<and> n \<le> 255))"

text \<open>\<open>s.strip()\<close>: whitespace removed at both ends.\<close>

definition py_strip :: "string \<Rightarrow> string" where
  "py_strip s = rev (dropWhile is_space (rev (dropWhile is_space s)))"

text \<open>\<open>s.strip(chars)\<close>: the characters of \<open>chars\<close> removed at both ends.\<close>

definition py_strip_chars :: "string \<Rightarrow> string \<Rightarrow> string" where
  "py_strip_chars chars s =
     rev (dropWhile (\<lambda>c. c \<in> set chars) (rev (dropWhile (\<lambda>c. c \<in> set chars) s)))"

text \<open>
  \<open>s.partition(sep)\<close> for a non-empty \<open>sep\<close>: the text before the first occurrence of
  \<open>sep\<close> and the text after it, or \<open>None\<close> where \<open>sep\<close> does not occur. It is also
  \<open>s.split(sep, 1)\<close>, whose result has two parts exactly when \<open>sep\<close> occurs.
\<close>

fun split_once :: "string \<Rightarrow> string \<Rightarrow> (string \<times> string) option" where
  "split_once sep [] = (if sep = [] then Some ([], []) else None)"
| "split_once sep (c # cs) =
     (if prefix sep (c # cs) then Some ([], drop (length sep) (c # cs))
      else (case split_once sep cs of
              None \<Rightarrow> None
            | Some (pre, post) \<Rightarrow> Some (c # pre, post)))"

text \<open>\<open>sub in s\<close>.\<close>

definition contains :: "string \<Rightarrow> string \<Rightarrow> bool" where
  "contains sub s = (split_once sub s \<noteq> None)"

text \<open>\<open>s.split('\n')\<close>: never empty, one more part than there are newlines.\<close>

fun split_lines :: "string \<Rightarrow> string list" where
  "split_lines [] = [[]]"
| "split_lines (c # cs) =
     (if c = CHR 0x0A then [] # split_lines cs
      else (case split_lines cs of
              [] \<Rightarrow> [[c]]
            | l # ls \<Rightarrow> (c # l) # ls))"

section \<open>Answer extraction (tasks/ukrainian_bench/common_filters.py)\<close>

text \<open>
  One attempt of the pattern \<open><think>.*?</think>\s*\<close> (with DOTALL) at the start of
  \<open>s\<close>: the opening tag, lazily up to the nearest closing tag, then all the whitespace
  that follows. The result is the text left after the match.
\<close>

definition match_think_block :: "string \<Rightarrow> string option" where
  "match_think_block s =
     (if prefix ''<think>'' s then
        (case split_once ''</think>'' (drop 7 s) of
           None \<Rightarrow> None
         | Some (body, rest) \<Rightarrow> Some (dropWhile is_space rest))
      else None)"

text \<open>One attempt of \<open>.*?</think>\s*\<close> (with DOTALL) at the start of \<open>s\<close>.\<close>

definition match_close_tag :: "string \<Rightarrow> string option" where
  "match_close_tag s =
     (case split_once ''</think>'' s of
        None \<Rightarrow> None
      | Some (body, rest) \<Rightarrow> Some (dropWhile is_space rest))"

lemma split_once_length:
  "split_once sep s = Some (b, a) \<Longrightarrow> length b + length sep + length a = length s"
proof (induction s arbitrary: b)
  case Nil
  then show ?case by (simp split: if_splits)
next
  case (Cons c cs)
  show ?case
  proof (cases "prefix sep (c # cs)")
    case True
    then have "length sep \<le> length (c # cs)" by (rule prefix_length_le)
    with True Cons.prems show ?thesis by auto
  next
    case False
    with Cons.prems obtain b' where s: "split_once sep cs = Some (b', a)" and b: "b = c # b'"
      by (auto split: option.splits)
    from Cons.IH [OF s] b show ?thesis by simp
  qed
qed

lemma match_think_block_shorter: "match_think_block s = Some r \<Longrightarrow> length r < length s"
proof -
  assume a: "match_think_block s = Some r"
  then obtain b rest where sp: "split_once ''</think>'' (drop 7 s) = Some (b, rest)"
    and r: "r = dropWhile is_space rest"
    by (auto simp: match_think_block_def split: if_splits option.splits)
  from split_once_length [OF sp] have "length rest < length (drop 7 s)" by simp
  moreover have "length r \<le> length rest" unfolding r by (rule length_dropWhile_le)
  ultimately show ?thesis by simp
qed

lemma match_close_tag_shorter: "match_close_tag s = Some r \<Longrightarrow> length r < length s"
proof -
  assume a: "match_close_tag s = Some r"
  then obtain b rest where sp: "split_once ''</think>'' s = Some (b, rest)"
    and r: "r = dropWhile is_space rest"
    by (auto simp: match_close_tag_def split: option.splits)
  from split_once_length [OF sp] have "length rest < length s" by simp
  moreover have "length r \<le> length rest" unfolding r by (rule length_dropWhile_le)
  ultimately show ?thesis by simp
qed

text \<open>
  \<open>re.sub(r'<think>.*?</think>\s*', '', s, flags=re.DOTALL)\<close>: the pattern is tried at
  each position from the left; where it matches, the match is dropped and the scan goes
  on behind it, and where it does not, the character is kept. The pattern matches no
  empty text.
\<close>

function strip_think_blocks :: "string \<Rightarrow> string" where
  "strip_think_blocks [] = []"
| "strip_think_blocks (c # cs) =
     (case match_think_block (c # cs) of
        Some rest \<Rightarrow> strip_think_blocks rest
      | None \<Rightarrow> c # strip_think_blocks cs)"
  by pat_completeness auto
termination
  by (relation "measure length") (auto dest: match_think_block_shorter)

text \<open>\<open>re.sub(r'.*?</think>\s*', '', s, flags=re.DOTALL)\<close>, in the same way.\<close>

function strip_close_tags :: "string \<Rightarrow> string" where
  "strip_close_tags [] = []"
| "strip_close_tags (c # cs) =
     (case match_close_tag (c # cs) of
        Some rest \<Rightarrow> strip_close_tags rest
      | None \<Rightarrow> c # strip_close_tags cs)"
  by pat_completeness auto
termination
  by (relation "measure length") (auto dest: match_close_tag_shorter)

text \<open>
  \<open>\b\<close> between two neighbouring positions: exactly one side is a word character; the
  outside of the string (\<open>None\<close>) is not one.
\<close>

definition word_boundary :: "char option \<Rightarrow> char option \<Rightarrow> bool" where
  "word_boundary l r =
     ((case l of None \<Rightarrow> False | Some c \<Rightarrow> is_word c)
      \<noteq> (case r of None \<Rightarrow> False | Some c \<Rightarrow> is_word c))"

text \<open>
  \<open>re.search(r'\b([...])\b', s)\<close> for a character class \<open>cls\<close>: the leftmost character
  of the class with a word boundary on each side; \<open>prev\<close> is the character before the
  current position. The result is \<open>match.group(1)\<close>, or \<open>None\<close> for no match.
\<close>

fun search_standalone :: "(char \<Rightarrow> bool) \<Rightarrow> char option \<Rightarrow> string \<Rightarrow> char option" where
  "search_standalone cls prev [] = None"
| "search_standalone cls prev (c # cs) =
     (if word_boundary prev (Some c) \<and> cls c
         \<and> word_boundary (Some c) (case cs of [] \<Rightarrow> None | d # _ \<Rightarrow> Some d)
      then Some c
      else search_standalone cls (Some c) cs)"

definition answer_letter_class :: "char \<Rightarrow> bool" where
  "answer_letter_class c = (c \<in> set ''ABCDabcd'')"

definition answer_digit_class :: "char \<Rightarrow> bool" where
  "answer_digit_class c = (c \<in> set ''1234'')"

text \<open>\<open>str.upper\<close> on one character of the class \<open>[A-Da-d]\<close>, the only place it is used.\<close>

definition py_upper :: "char \<Rightarrow> char" where
  "py_upper c = (let n = (of_char c :: nat) in
     if 97 \<le> n \<and> n \<le> 122 then char_of (n - 32) else c)"

definition num_to_letter :: "(char \<times> string) list" where
  "num_to_letter = [(CHR ''1'', ''A''), (CHR ''2'', ''B''), (CHR ''3'', ''C''), (CHR ''4'', ''D'')]"

text \<open>The body of the loop of \<open>extract_answer_letter\<close>: what is appended for one response.\<close>

definition extract_one :: "string \<Rightarrow> string" where
  "extract_one resp =
     (let clean = strip_think_blocks resp;
          clean = strip_close_tags clean
      in case search_standalone answer_letter_class None clean of
           Some c \<Rightarrow> [py_upper c]
         | None \<Rightarrow>
             (case search_standalone answer_digit_class None clean of
                Some d \<Rightarrow> (case map_of num_to_letter d of Some l \<Rightarrow> l | None \<Rightarrow> [d])
              | None \<Rightarrow> []))"

fun extract_loop :: "string list \<Rightarrow> string list \<Rightarrow> string list" where
  "extract_loop results [] = results"
| "extract_loop results (resp # resps) = extract_loop (results @ [extract_one resp]) resps"

definition extract_answer_letter :: "string list \<Rightarrow> string list" where
  "extract_answer_letter resps = extract_loop [] resps"

text \<open>The pattern \<open>\b([...])\b\<close> matches at position \<open>i\<close> of \<open>s\<close>.\<close>

definition match_at :: "(char \<Rightarrow> bool) \<Rightarrow> char option \<Rightarrow> string \<Rightarrow> nat \<Rightarrow> bool" where
  "match_at cls prev s i =
     (i < length s \<and> cls (s ! i)
      \<and> word_boundary (if i = 0 then prev else Some (s ! (i - 1))) (Some (s ! i))
      \<and> word_boundary (Some (s ! i)) (if Suc i < length s then Some (s ! Suc i) else None))"

text \<open>
  The words of the specification. A character is standalone where neither neighbour is
  a word character; \<open>spec_first\<close> is the first position holding a standalone character
  of a class; \<open>spec_answer\<close> relates the stripped response to the answer the
  specification asks for.
\<close>

definition spec_standalone :: "string \<Rightarrow> nat \<Rightarrow> bool" where
  "spec_standalone s i =
     (i < length s \<and> (i = 0 \<or> \<not> is_word (s ! (i - 1)))
      \<and> (Suc i = length s \<or> \<not> is_word (s ! Suc i)))"

definition spec_first :: "(char \<Rightarrow> bool) \<Rightarrow> string \<Rightarrow> nat \<Rightarrow> bool" where
  "spec_first cls s i =
     (cls (s ! i) \<and> spec_standalone s i \<and> (\<forall>j<i. \<not> (cls (s ! j) \<and> spec_standalone s j)))"

definition spec_upper :: "char \<Rightarrow> char" where
  "spec_upper c =
     (if c = CHR ''a'' then CHR ''A'' else if c = CHR ''b'' then CHR ''B''
      else if c = CHR ''c'' then CHR ''C'' else if c = CHR ''d'' then CHR ''D'' else c)"

definition spec_digit_letter :: "char \<Rightarrow> char" where
  "spec_digit_letter d =
     (if d = CHR ''1'' then CHR ''A'' else if d = CHR ''2'' then CHR ''B''
      else if d = CHR ''3'' then CHR ''C'' else CHR ''D'')"

definition spec_answer :: "string \<Rightarrow> string \<Rightarrow> bool" where
  "spec_answer clean out =
     (if \<exists>i. spec_first answer_letter_class clean i
      then \<exists>i. spec_first answer_letter_class clean i \<and> out = [spec_upper (clean ! i)]
      else if \<exists>i. spec_first answer_digit_class clean i
      then \<exists>i. spec_first answer_digit_class clean i \<and> out = [spec_digit_letter (clean ! i)]
      else out = [])"

lemma match_at_0:
  "match_at cls prev (c # cs) 0 =
     (word_boundary prev (Some c) \<and> cls c
      \<and> word_boundary (Some c) (case cs of [] \<Rightarrow> None | d # _ \<Rightarrow> Some d))"
  by (cases cs) (auto simp: match_at_def)

lemma match_at_Suc: "match_at cls prev (c # cs) (Suc i) = match_at cls (Some c) cs i"
  by (cases i) (auto simp: match_at_def)

lemma search_standalone_Some:
  "search_standalone cls prev s = Some c \<Longrightarrow>
     \<exists>i. match_at cls prev s i \<and> s ! i = c \<and> (\<forall>j<i. \<not> match_at cls prev s j)"
proof (induction s arbitrary: prev)
  case Nil
  then show ?case by simp
next
  case (Cons x xs)
  show ?case
  proof (cases "match_at cls prev (x # xs) 0")
    case True
    with Cons.prems have "c = x" by (simp add: match_at_0)
    with True show ?thesis by (intro exI [of _ 0]) simp
  next
    case False
    with Cons.prems have "search_standalone cls (Some x) xs = Some c"
      by (simp add: match_at_0 split: if_splits)
    from Cons.IH [OF this] obtain i where i: "match_at cls (Some x) xs i" "xs ! i = c"
      "\<forall>j<i. \<not> match_at cls (Some x) xs j" by blast
    have "\<forall>j<Suc i. \<not> match_at cls prev (x # xs) j"
    proof (intro allI impI)
      fix j assume "j < Suc i"
      then show "\<not> match_at cls prev (x # xs) j"
        using False i(3) by (cases j) (auto simp: match_at_Suc)
    qed
    with i show ?thesis by (intro exI [of _ "Suc i"]) (simp add: match_at_Suc)
  qed
qed

lemma search_standalone_None:
  "search_standalone cls prev s = None \<Longrightarrow> \<not> match_at cls prev s i"
proof (induction s arbitrary: prev i)
  case Nil
  then show ?case by (simp add: match_at_def)
next
  case (Cons x xs)
  from Cons.prems have h: "\<not> match_at cls prev (x # xs) 0"
    and t: "search_standalone cls (Some x) xs = None"
    by (auto simp: match_at_0 split: if_splits)
  show ?case
  proof (cases i)
    case 0
    with h show ?thesis by simp
  next
    case (Suc k)
    with Cons.IH [OF t, of k] show ?thesis by (simp add: match_at_Suc)
  qed
qed

lemma match_at_standalone:
  assumes "\<And>c. cls c \<Longrightarrow> is_word c"
  shows "match_at cls None s i = (cls (s ! i) \<and> spec_standalone s i)"
proof (cases "i < length s")
  case False
  then show ?thesis by (simp add: match_at_def spec_standalone_def)
next
  case True
  then have "Suc i < length s \<or> Suc i = length s" by arith
  with True assms show ?thesis
    by (cases "i = 0") (auto simp: match_at_def spec_standalone_def word_boundary_def)
qed

lemma answer_letter_word: "answer_letter_class c \<Longrightarrow> is_word c"
  by (auto simp: answer_letter_class_def is_word_def)

lemma answer_digit_word: "answer_digit_class c \<Longrightarrow> is_word c"
  by (auto simp: answer_digit_class_def is_word_def)

lemma first_unique: "spec_first cls s i \<Longrightarrow> spec_first cls s j \<Longrightarrow> i = j"
  unfolding spec_first_def by (metis linorder_neqE_nat)

lemma search_first:
  assumes w: "\<And>c. cls c \<Longrightarrow> is_word c"
  shows "search_standalone cls None s = Some c \<Longrightarrow> \<exists>i. spec_first cls s i \<and> s ! i = c"
    and "search_standalone cls None s = None \<Longrightarrow> \<not> spec_first cls s i"
proof -
  show "search_standalone cls None s = Some c \<Longrightarrow> \<exists>i. spec_first cls s i \<and> s ! i = c"
    using search_standalone_Some [of cls None s c] match_at_standalone [of cls, OF w]
    unfolding spec_first_def by auto
  show "search_standalone cls None s = None \<Longrightarrow> \<not> spec_first cls s i"
    using search_standalone_None [of cls None s i] match_at_standalone [of cls, OF w]
    unfolding spec_first_def by auto
qed

lemma py_upper_values:
  "py_upper CHR ''a'' = CHR ''A''" "py_upper CHR ''b'' = CHR ''B''"
  "py_upper CHR ''c'' = CHR ''C''" "py_upper CHR ''d'' = CHR ''D''"
  "py_upper CHR ''A'' = CHR ''A''" "py_upper CHR ''B'' = CHR ''B''"
  "py_upper CHR ''C'' = CHR ''C''" "py_upper CHR ''D'' = CHR ''D''"
  by code_simp+

lemma py_upper_letter: "answer_letter_class c \<Longrightarrow> py_upper c = spec_upper c"
  by (auto simp: answer_letter_class_def py_upper_values spec_upper_def)

lemma digit_letter: "answer_digit_class d \<Longrightarrow>
  (case map_of num_to_letter d of Some l \<Rightarrow> l | None \<Rightarrow> [d]) = [spec_digit_letter d]"
  by (auto simp: answer_digit_class_def num_to_letter_def spec_digit_letter_def)

lemma extract_one_spec:
  "spec_answer (strip_close_tags (strip_think_blocks resp)) (extract_one resp)"
proof -
  let ?clean = "strip_close_tags (strip_think_blocks resp)"
  show ?thesis
  proof (cases "search_standalone answer_letter_class None ?clean")
    case (Some c)
    from search_first(1) [OF answer_letter_word Some]
    obtain i where i: "spec_first answer_letter_class ?clean i" "?clean ! i = c" by blast
    then have "answer_letter_class c" by (auto simp: spec_first_def)
    then have "extract_one resp = [spec_upper (?clean ! i)]"
      using Some i(2) by (simp add: extract_one_def py_upper_letter)
    with i(1) show ?thesis unfolding spec_answer_def by auto
  next
    case None
    then have nol: "\<not> (\<exists>i. spec_first answer_letter_class ?clean i)"
      using search_first(2) [OF answer_letter_word] by blast
    show ?thesis
    proof (cases "search_standalone answer_digit_class None ?clean")
      case (Some d)
      from search_first(1) [OF answer_digit_word Some]
      obtain i where i: "spec_first answer_digit_class ?clean i" "?clean ! i = d" by blast
      then have "answer_digit_class d" by (auto simp: spec_first_def)
      then have "extract_one resp = [spec_digit_letter (?clean ! i)]"
        using None Some i(2) by (simp add: extract_one_def digit_letter)
      with i(1) nol show ?thesis unfolding spec_answer_def by auto
    next
      case None2: None
      then have "\<not> (\<exists>i. spec_first answer_digit_class ?clean i)"
        using search_first(2) [OF answer_digit_word] by blast
      with nol None None2 show ?thesis by (simp add: spec_answer_def extract_one_def)
    qed
  qed
qed

lemma extract_loop_map: "extract_loop results resps = results @ map extract_one resps"
  by (induction resps arbitrary: results) auto

lemma extract_answer_letter_map: "extract_answer_letter resps = map extract_one resps"
  by (simp add: extract_answer_letter_def extract_loop_map)

text \<open>
  The words of the specification for stripping the thinking tags, written with
  concatenation only. \<open>sep\<close> occurs in \<open>s\<close> where \<open>s\<close> is some text, \<open>sep\<close>, and some
  text; its first (last) occurrence is the one with the shortest (longest) text before
  it. Stripping the blocks: where no opening tag has a closing tag behind it the text
  stays; else the text before the first opening tag is kept, the block up to the
  nearest closing tag and the whitespace behind it are dropped, and the rest is
  stripped in the same way. Stripping the closing tags: where a closing tag is left,
  the result is the text behind the last one without its leading whitespace.
\<close>

definition spec_occurs :: "string \<Rightarrow> string \<Rightarrow> bool" where
  "spec_occurs sep s = (\<exists>p q. s = p @ sep @ q)"

definition spec_first_occurrence :: "string \<Rightarrow> string \<Rightarrow> string \<Rightarrow> string \<Rightarrow> bool" where
  "spec_first_occurrence sep s pre post =
     (s = pre @ sep @ post \<and> (\<forall>p q. s = p @ sep @ q \<longrightarrow> length pre \<le> length p))"

definition spec_last_occurrence :: "string \<Rightarrow> string \<Rightarrow> string \<Rightarrow> string \<Rightarrow> bool" where
  "spec_last_occurrence sep s pre post =
     (s = pre @ sep @ post \<and> (\<forall>p q. s = p @ sep @ q \<longrightarrow> length p \<le> length pre))"

inductive spec_strip_blocks :: "string \<Rightarrow> string \<Rightarrow> bool" where
  spec_blocks_none:
    "\<not> (\<exists>pre body post. s = pre @ ''<think>'' @ body @ ''</think>'' @ post)
     \<Longrightarrow> spec_strip_blocks s s"
| spec_blocks_drop:
    "spec_first_occurrence ''<think>'' s pre rest
     \<Longrightarrow> spec_first_occurrence ''</think>'' rest body post
     \<Longrightarrow> spec_strip_blocks (dropWhile is_space post) out
     \<Longrightarrow> spec_strip_blocks s (pre @ out)"

definition spec_strip_close :: "string \<Rightarrow> string \<Rightarrow> bool" where
  "spec_strip_close s out =
     (if spec_occurs ''</think>'' s
      then \<exists>pre post. spec_last_occurrence ''</think>'' s pre post
             \<and> out = dropWhile is_space post
      else out = s)"

lemma split_once_occurs: "spec_occurs sep s \<Longrightarrow> split_once sep s \<noteq> None"
proof (induction s)
  case Nil
  then show ?case by (auto simp: spec_occurs_def)
next
  case (Cons c cs)
  show ?case
  proof (cases "prefix sep (c # cs)")
    case True
    then show ?thesis by simp
  next
    case False
    from Cons.prems obtain p q where pq: "c # cs = p @ sep @ q" by (auto simp: spec_occurs_def)
    with False have "p \<noteq> []" by (auto simp: prefix_def)
    with pq obtain p' where "p = c # p'" "cs = p' @ sep @ q" by (cases p) auto
    then have "spec_occurs sep cs" by (auto simp: spec_occurs_def)
    from Cons.IH [OF this] False show ?thesis by (auto split: option.splits)
  qed
qed

lemma split_once_first_occurrence:
  "split_once sep s = Some (pre, post) \<Longrightarrow> spec_first_occurrence sep s pre post"
proof (induction s arbitrary: pre)
  case Nil
  then show ?case by (auto simp: spec_first_occurrence_def split: if_splits)
next
  case (Cons c cs)
  show ?case
  proof (cases "prefix sep (c # cs)")
    case True
    with Cons.prems have "pre = []" "post = drop (length sep) (c # cs)" by auto
    moreover from True have "c # cs = sep @ drop (length sep) (c # cs)"
      by (auto simp: prefix_def)
    ultimately show ?thesis by (simp add: spec_first_occurrence_def)
  next
    case False
    with Cons.prems obtain b where b: "split_once sep cs = Some (b, post)" "pre = c # b"
      by (auto split: option.splits)
    from Cons.IH [OF b(1)] have cs: "cs = b @ sep @ post"
      and mn: "\<forall>p q. cs = p @ sep @ q \<longrightarrow> length b \<le> length p"
      by (auto simp: spec_first_occurrence_def)
    have "\<forall>p q. c # cs = p @ sep @ q \<longrightarrow> length pre \<le> length p"
    proof (intro allI impI)
      fix p q assume pq: "c # cs = p @ sep @ q"
      with False have "p \<noteq> []" by (auto simp: prefix_def)
      with pq obtain p' where p': "p = c # p'" "cs = p' @ sep @ q" by (cases p) auto
      with mn b(2) show "length pre \<le> length p" by auto
    qed
    with cs b(2) show ?thesis by (simp add: spec_first_occurrence_def)
  qed
qed

lemma first_occurrence_unique:
  assumes "spec_first_occurrence sep s pre post" and "spec_first_occurrence sep s pre' post'"
  shows "pre = pre' \<and> post = post'"
proof -
  from assms have e: "pre @ sep @ post = pre' @ sep @ post'" and "length pre = length pre'"
    by (auto simp: spec_first_occurrence_def intro: le_antisym)
  then show ?thesis by simp
qed

lemma last_occurrence_unique:
  assumes "spec_last_occurrence sep s pre post" and "spec_last_occurrence sep s pre' post'"
  shows "pre = pre' \<and> post = post'"
proof -
  from assms have e: "pre @ sep @ post = pre' @ sep @ post'" and "length pre = length pre'"
    by (auto simp: spec_last_occurrence_def intro: le_antisym)
  then show ?thesis by simp
qed

lemma spec_strip_blocks_unique:
  "spec_strip_blocks s a \<Longrightarrow> spec_strip_blocks s b \<Longrightarrow> a = b"
proof (induction arbitrary: b rule: spec_strip_blocks.induct)
  case (spec_blocks_none s)
  from spec_blocks_none.prems spec_blocks_none.hyps show ?case
    by (cases rule: spec_strip_blocks.cases) (auto simp: spec_first_occurrence_def)
next
  case (spec_blocks_drop s pre rest body post out)
  from spec_blocks_drop.prems show ?case
  proof (cases rule: spec_strip_blocks.cases)
    case spec_blocks_none
    with spec_blocks_drop.hyps(1,2) show ?thesis
      by (auto simp: spec_first_occurrence_def)
  next
    case (spec_blocks_drop pre' rest' body' post' out')
    from first_occurrence_unique [OF spec_blocks_drop.hyps(1) spec_blocks_drop(2)]
    have 1: "pre = pre'" "rest = rest'" by auto
    from first_occurrence_unique [OF spec_blocks_drop.hyps(2)] spec_blocks_drop(3) 1
    have 2: "post = post'" by auto
    from spec_blocks_drop.IH [of out'] spec_blocks_drop(4) 2 have "out = out'" by simp
    with 1 spec_blocks_drop(1) show ?thesis by simp
  qed
qed

lemma spec_strip_close_unique:
  "spec_strip_close s a \<Longrightarrow> spec_strip_close s b \<Longrightarrow> a = b"
  unfolding spec_strip_close_def
  by (auto split: if_splits dest: last_occurrence_unique)


lemma prefix_open_match:
  assumes "prefix ''<think>'' s" and "spec_occurs ''</think>'' (drop 7 s)"
  shows "match_think_block s \<noteq> None"
  using assms split_once_occurs [of "''</think>''" "drop 7 s"]
  by (auto simp: match_think_block_def split: option.splits)

lemma spec_strip_blocks_Cons:
  assumes nm: "match_think_block (c # cs) = None" and sp: "spec_strip_blocks cs out"
  shows "spec_strip_blocks (c # cs) (c # out)"
  using sp
proof (cases rule: spec_strip_blocks.cases)
  case spec_blocks_none
  have "\<not> (\<exists>pre body post. c # cs = pre @ ''<think>'' @ body @ ''</think>'' @ post)"
  proof
    assume "\<exists>pre body post. c # cs = pre @ ''<think>'' @ body @ ''</think>'' @ post"
    then obtain pre body post where e: "c # cs = pre @ ''<think>'' @ body @ ''</think>'' @ post"
      by blast
    show False
    proof (cases pre)
      case Nil
      with e have "prefix ''<think>'' (c # cs)" "drop 7 (c # cs) = body @ ''</think>'' @ post"
        by (auto simp: prefix_def)
      then have "match_think_block (c # cs) \<noteq> None"
        by (intro prefix_open_match) (auto simp: spec_occurs_def)
      with nm show False by simp
    next
      case (Cons x pre')
      with e have "cs = pre' @ ''<think>'' @ body @ ''</think>'' @ post" by simp
      with spec_blocks_none(2) show False by blast
    qed
  qed
  then have "spec_strip_blocks (c # cs) (c # cs)" by (rule spec_strip_blocks.spec_blocks_none)
  with spec_blocks_none(1) show ?thesis by simp
next
  case (spec_blocks_drop pre rest body post out')
  from spec_blocks_drop(2,3) have cs: "cs = pre @ ''<think>'' @ body @ ''</think>'' @ post"
    and rest: "rest = body @ ''</think>'' @ post"
    and mn: "\<forall>p q. cs = p @ ''<think>'' @ q \<longrightarrow> length pre \<le> length p"
    by (auto simp: spec_first_occurrence_def)
  have np: "\<not> prefix ''<think>'' (c # cs)"
  proof
    assume p: "prefix ''<think>'' (c # cs)"
    have "c # cs = ((c # pre) @ ''<think>'' @ body) @ (''</think>'' @ post)"
      by (simp add: cs)
    moreover have "7 \<le> length ((c # pre) @ ''<think>'' @ body)" by simp
    ultimately
    have "drop 7 (c # cs) = drop 7 ((c # pre) @ ''<think>'' @ body) @ ''</think>'' @ post"
      by (simp only: drop_append diff_is_0_eq' drop_0)
    then have "spec_occurs ''</think>'' (drop 7 (c # cs))"
      unfolding spec_occurs_def by blast
    from prefix_open_match [OF p this] nm show False by simp
  qed
  have "\<forall>p q. c # cs = p @ ''<think>'' @ q \<longrightarrow> length (c # pre) \<le> length p"
  proof (intro allI impI)
    fix p q assume pq: "c # cs = p @ ''<think>'' @ q"
    with np have "p \<noteq> []" by (auto simp: prefix_def)
    with pq obtain p' where "p = c # p'" "cs = p' @ ''<think>'' @ q" by (cases p) auto
    with mn show "length (c # pre) \<le> length p" by auto
  qed
  with cs rest have "spec_first_occurrence ''<think>'' (c # cs) (c # pre) rest"
    by (simp add: spec_first_occurrence_def)
  from spec_strip_blocks.spec_blocks_drop [OF this spec_blocks_drop(3,4)]
  show ?thesis using spec_blocks_drop(1) by simp
qed

lemma strip_think_blocks_spec: "spec_strip_blocks s (strip_think_blocks s)"
proof (induction s rule: strip_think_blocks.induct)
  case 1
  show ?case by (auto intro: spec_strip_blocks.spec_blocks_none)
next
  case (2 c cs)
  show ?case
  proof (cases "match_think_block (c # cs)")
    case None
    with 2 have "spec_strip_blocks cs (strip_think_blocks cs)" by blast
    from spec_strip_blocks_Cons [OF None this] None show ?thesis by simp
  next
    case (Some r)
    then obtain body post where p: "prefix ''<think>'' (c # cs)"
      and sp: "split_once ''</think>'' (drop 7 (c # cs)) = Some (body, post)"
      and r: "r = dropWhile is_space post"
      by (auto simp: match_think_block_def split: if_splits option.splits)
    from p have "c # cs = ''<think>'' @ drop 7 (c # cs)" by (auto simp: prefix_def)
    then have f1: "spec_first_occurrence ''<think>'' (c # cs) [] (drop 7 (c # cs))"
      unfolding spec_first_occurrence_def by simp
    from split_once_first_occurrence [OF sp]
    have f2: "spec_first_occurrence ''</think>'' (drop 7 (c # cs)) body post" .
    from 2 Some r have "spec_strip_blocks (dropWhile is_space post) (strip_think_blocks r)"
      by blast
    from spec_strip_blocks.spec_blocks_drop [OF f1 f2 this] Some show ?thesis by simp
  qed
qed

lemma append_eq_longer_prefix:
  "xs @ ys = p @ zs \<Longrightarrow> length xs \<le> length p \<Longrightarrow> \<exists>p'. p = xs @ p' \<and> ys = p' @ zs"
proof (induction xs arbitrary: p)
  case Nil
  then show ?case by simp
next
  case (Cons x xs)
  then obtain p2 where p: "p = x # p2" by (cases p) auto
  with Cons.prems have "xs @ ys = p2 @ zs" "length xs \<le> length p2" by auto
  from Cons.IH [OF this] p show ?case by auto
qed

lemma close_tag_no_overlap:
  assumes "s = p @ ''</think>'' @ q" and "s = p' @ ''</think>'' @ q'" and "length p < length p'"
  shows "length p + 8 \<le> length p'"
proof (rule ccontr)
  assume "\<not> length p + 8 \<le> length p'"
  with assms(3) have "length p' = length p + (length p' - length p)"
    "0 < length p' - length p" "length p' - length p < 8" by arith+
  then obtain d where d: "length p' = length p + d" "0 < d" "d < 8" by blast
  have "s ! length p' = CHR ''<''" by (simp add: assms(2) nth_append)
  moreover have "s ! (length p + d) = ''</think>'' ! d"
  proof -
    have "s ! (length p + d) = (''</think>'' @ q) ! d"
      unfolding assms(1) by (rule nth_append_length_plus)
    also have "\<dots> = ''</think>'' ! d" using d(3) by (subst nth_append) simp
    finally show ?thesis .
  qed
  ultimately have "''</think>'' ! d = CHR ''<''" using d(1) by simp
  moreover from d(2,3) have "d \<in> {1, 2, 3, 4, 5, 6, 7}" by auto
  ultimately show False by (auto simp: nth_Cons')
qed

lemma occurs_dropWhile_space:
  "spec_occurs ''</think>'' rest \<Longrightarrow> spec_occurs ''</think>'' (dropWhile is_space rest)"
proof (induction rest)
  case Nil
  then show ?case by simp
next
  case (Cons c cs)
  show ?case
  proof (cases "is_space c")
    case False
    with Cons.prems show ?thesis by simp
  next
    case True
    from Cons.prems obtain p q where pq: "c # cs = p @ ''</think>'' @ q"
      by (auto simp: spec_occurs_def)
    have "p \<noteq> []"
    proof
      assume "p = []"
      with pq have "c = CHR ''<''" by simp
      with True show False by (simp add: is_space_def)
    qed
    with pq obtain p' where "cs = p' @ ''</think>'' @ q" by (cases p) auto
    then have "spec_occurs ''</think>'' cs" by (auto simp: spec_occurs_def)
    from Cons.IH [OF this] True show ?thesis by simp
  qed
qed

lemma strip_close_tags_none: "\<not> spec_occurs ''</think>'' s \<Longrightarrow> strip_close_tags s = s"
proof (induction s)
  case Nil
  show ?case by simp
next
  case (Cons c cs)
  have "\<not> spec_occurs ''</think>'' cs"
  proof
    assume "spec_occurs ''</think>'' cs"
    then obtain p q where "cs = p @ ''</think>'' @ q" by (auto simp: spec_occurs_def)
    then have "c # cs = (c # p) @ ''</think>'' @ q" by simp
    with Cons.prems show False unfolding spec_occurs_def by blast
  qed
  from Cons.IH [OF this] have ih: "strip_close_tags cs = cs" .
  have "split_once ''</think>'' (c # cs) = None"
  proof (cases "split_once ''</think>'' (c # cs)")
    case (Some a)
    then obtain b r where "split_once ''</think>'' (c # cs) = Some (b, r)" by (cases a) auto
    from split_once_first_occurrence [OF this] Cons.prems show ?thesis
      by (auto simp: spec_first_occurrence_def spec_occurs_def)
  qed simp
  then have "match_close_tag (c # cs) = None" by (simp add: match_close_tag_def)
  with ih show ?case by simp
qed

lemma strip_close_tags_spec: "spec_strip_close s (strip_close_tags s)"
proof (induction s rule: strip_close_tags.induct)
  case 1
  show ?case by (simp add: spec_strip_close_def spec_occurs_def)
next
  case (2 c cs)
  let ?s = "c # cs"
  show ?case
  proof (cases "match_close_tag ?s")
    case None
    then have "split_once ''</think>'' ?s = None"
      by (cases "split_once ''</think>'' ?s")
         (auto simp: match_close_tag_def simp del: split_once.simps)
    with split_once_occurs [of "''</think>''" ?s] have no: "\<not> spec_occurs ''</think>'' ?s"
      by blast
    from strip_close_tags_none [OF no] no show ?thesis by (simp add: spec_strip_close_def)
  next
    case (Some r)
    then obtain body rest where sp: "split_once ''</think>'' ?s = Some (body, rest)"
      and r: "r = dropWhile is_space rest"
      by (cases "split_once ''</think>'' ?s")
         (auto simp: match_close_tag_def simp del: split_once.simps)
    from split_once_first_occurrence [OF sp]
    have s: "?s = body @ ''</think>'' @ rest"
      and mn: "\<forall>p q. ?s = p @ ''</think>'' @ q \<longrightarrow> length body \<le> length p"
      by (auto simp: spec_first_occurrence_def)
    then have occ: "spec_occurs ''</think>'' ?s" unfolding spec_occurs_def by blast
    let ?ws = "takeWhile is_space rest"
    have rest: "rest = ?ws @ r" by (simp add: r)
    from 2 Some have ih: "spec_strip_close r (strip_close_tags r)" by blast
    have res: "strip_close_tags ?s = strip_close_tags r" using Some by simp
    show ?thesis
    proof (cases "spec_occurs ''</think>'' r")
      case True
      with ih obtain pre1 post1 where l1: "spec_last_occurrence ''</think>'' r pre1 post1"
        and out: "strip_close_tags r = dropWhile is_space post1"
        by (auto simp: spec_strip_close_def)
      from l1 have r1: "r = pre1 @ ''</think>'' @ post1"
        and mx: "\<forall>p q. r = p @ ''</think>'' @ q \<longrightarrow> length p \<le> length pre1"
        by (auto simp: spec_last_occurrence_def)
      let ?pre = "body @ ''</think>'' @ ?ws @ pre1"
      have e: "?s = ?pre @ ''</think>'' @ post1" using s rest r1 by simp
      have "\<forall>p q. ?s = p @ ''</think>'' @ q \<longrightarrow> length p \<le> length ?pre"
      proof (intro allI impI)
        fix p q assume pq: "?s = p @ ''</think>'' @ q"
        show "length p \<le> length ?pre"
        proof (cases "length (body @ ''</think>'' @ ?ws) \<le> length p")
          case False
          then show ?thesis by simp
        next
          case True
          have "?s = (body @ ''</think>'' @ ?ws) @ r" using s rest by simp
          then have "(body @ ''</think>'' @ ?ws) @ r = p @ (''</think>'' @ q)"
            using pq by simp
          from append_eq_longer_prefix [OF this True]
          obtain p' where p': "p = (body @ ''</think>'' @ ?ws) @ p'"
            and "r = p' @ ''</think>'' @ q" by blast
          with mx have "length p' \<le> length pre1" by blast
          with p' show ?thesis by simp
        qed
      qed
      with e have "spec_last_occurrence ''</think>'' ?s ?pre post1"
        unfolding spec_last_occurrence_def by blast
      with occ out res show ?thesis unfolding spec_strip_close_def by auto
    next
      case False
      with ih have out: "strip_close_tags r = r" by (simp add: spec_strip_close_def)
      from False occurs_dropWhile_space [of rest] r have nr: "\<not> spec_occurs ''</think>'' rest"
        by auto
      have "\<forall>p q. ?s = p @ ''</think>'' @ q \<longrightarrow> length p \<le> length body"
      proof (intro allI impI, rule ccontr)
        fix p q assume pq: "?s = p @ ''</think>'' @ q" and "\<not> length p \<le> length body"
        then have lt: "length body < length p" by simp
        from close_tag_no_overlap [OF s pq lt] have ge: "length (body @ ''</think>'') \<le> length p"
          by simp
        have "?s = (body @ ''</think>'') @ rest" using s by simp
        then have "(body @ ''</think>'') @ rest = p @ (''</think>'' @ q)"
          using pq by simp
        from append_eq_longer_prefix [OF this ge]
        obtain p' where p': "p = (body @ ''</think>'') @ p'"
          and "rest = p' @ ''</think>'' @ q" by blast
        with nr show False unfolding spec_occurs_def by blast
      qed
      with s have "spec_last_occurrence ''</think>'' ?s body rest"
        unfolding spec_last_occurrence_def by blast
      with occ out res r show ?thesis unfolding spec_strip_close_def by auto
    qed
  qed
qed

text \<open>
  Claim C7: \<open>extract_answer_letter\<close> returns a list of the same length as its input.
  Each element is found in the response with its thinking tags stripped, that is, with
  every block from \<open><think>\<close> to the nearest \<open></think>\<close> and the whitespace behind it
  removed, and then everything up to the last closing tag that is left and the
  whitespace behind it removed; this stripped text is unique. The element is the first
  standalone letter A-D of that text uppercased, or else its first standalone digit 1-4
  mapped to A, B, C, D, or else the empty string. \<open>["The answer is C."]\<close> gives \<open>["C"]\<close>
  and \<open>["3"]\<close> gives \<open>["C"]\<close>.
\<close>

theorem extract_answer_letter_first_standalone:
  "length (extract_answer_letter resps) = length resps
   \<and> (\<forall>k<length resps.
         \<exists>blockless clean.
           spec_strip_blocks (resps ! k) blockless \<and> spec_strip_close blockless clean
           \<and> (\<forall>b c. spec_strip_blocks (resps ! k) b \<and> spec_strip_close b c \<longrightarrow> c = clean)
           \<and> spec_answer clean (extract_answer_letter resps ! k))
   \<and> extract_answer_letter [''The answer is C.''] = [''C'']
   \<and> extract_answer_letter [''3''] = [''C'']"
proof (intro conjI allI impI)
  show "length (extract_answer_letter resps) = length resps"
    by (simp add: extract_answer_letter_map)
  show "extract_answer_letter [''The answer is C.''] = [''C'']" by code_simp
  show "extract_answer_letter [''3''] = [''C'']" by code_simp
  fix k assume k: "k < length resps"
  let ?blockless = "strip_think_blocks (resps ! k)"
  let ?clean = "strip_close_tags ?blockless"
  have 1: "spec_strip_blocks (resps ! k) ?blockless" by (rule strip_think_blocks_spec)
  have 2: "spec_strip_close ?blockless ?clean" by (rule strip_close_tags_spec)
  have 3: "\<forall>b c. spec_strip_blocks (resps ! k) b \<and> spec_strip_close b c \<longrightarrow> c = ?clean"
    using spec_strip_blocks_unique [OF 1] spec_strip_close_unique [OF 2] by blast
  have 4: "spec_answer ?clean (extract_answer_letter resps ! k)"
    using k by (simp add: extract_answer_letter_map extract_one_spec)
  from 1 2 3 4
  show "\<exists>blockless clean.
           spec_strip_blocks (resps ! k) blockless \<and> spec_strip_close blockless clean
           \<and> (\<forall>b c. spec_strip_blocks (resps ! k) b \<and> spec_strip_close b c \<longrightarrow> c = clean)
           \<and> spec_answer clean (extract_answer_letter resps ! k)"
    by blast
qed

lemma extract_one_range:
  "extract_one resp \<in> {[], ''A'', ''B'', ''C'', ''D''}"
proof -
  let ?clean = "strip_close_tags (strip_think_blocks resp)"
  have "spec_answer ?clean (extract_one resp)" by (rule extract_one_spec)
  then consider i where "answer_letter_class (?clean ! i)" "extract_one resp = [spec_upper (?clean ! i)]"
    | i where "answer_digit_class (?clean ! i)" "extract_one resp = [spec_digit_letter (?clean ! i)]"
    | "extract_one resp = []"
    unfolding spec_answer_def spec_first_def by (auto split: if_splits)
  then show ?thesis
  proof cases
    case 1 then show ?thesis by (auto simp: answer_letter_class_def spec_upper_def)
  next
    case 2 then show ?thesis by (auto simp: answer_digit_class_def spec_digit_letter_def)
  next
    case 3 then show ?thesis by simp
  qed
qed

text \<open>
  Claim C10: every element of the list returned by \<open>extract_answer_letter\<close> is the
  empty string or one of the one-character strings A, B, C, D.
\<close>

theorem extract_answer_letter_range:
  "x \<in> set (extract_answer_letter resps) \<Longrightarrow>
     x = [] \<or> x = ''A'' \<or> x = ''B'' \<or> x = ''C'' \<or> x = ''D''"
  using extract_one_range by (auto simp: extract_answer_letter_map)


theorem extract_answer_letter_range_witness:
  "''C'' \<in> set (extract_answer_letter [''The answer is C.'', ''<think>x</think> nothing''])
   \<and> [] \<in> set (extract_answer_letter [''The answer is C.'', ''<think>x</think> nothing''])"
proof -
  have e: "extract_answer_letter [''The answer is C.'', ''<think>x</think> nothing'']
           = [''C'', []]" by code_simp
  have "''C'' \<in> set (extract_answer_letter [''The answer is C.'', ''<think>x</think> nothing''])"
    unfolding e by simp
  from this extract_answer_letter_range [OF this] show ?thesis unfolding e by simp
qed

theorem extract_answer_letter_first_standalone_witness:
  "spec_strip_blocks ''x <think>A or B?</think> </think>  I pick b.'' ''x </think>  I pick b.''
   \<and> spec_strip_close ''x </think>  I pick b.'' ''I pick b.''
   \<and> spec_answer ''I pick b.'' ''B''
   \<and> extract_answer_letter [''x <think>A or B?</think> </think>  I pick b.''] = [''B'']"
proof -
  let ?resp = "''x <think>A or B?</think> </think>  I pick b.''"
  have e: "extract_answer_letter [?resp] = [''B'']" by code_simp
  have b: "strip_think_blocks ?resp = ''x </think>  I pick b.''" by code_simp
  have c: "strip_close_tags ''x </think>  I pick b.'' = ''I pick b.''" by code_simp
  have r1: "spec_strip_blocks ?resp ''x </think>  I pick b.''"
    using strip_think_blocks_spec [of ?resp] unfolding b .
  have r2: "spec_strip_close ''x </think>  I pick b.'' ''I pick b.''"
    using strip_close_tags_spec [of "''x </think>  I pick b.''"] unfolding c .
  from extract_answer_letter_first_standalone [of "[?resp]"]
  obtain clean where u: "\<forall>b c. spec_strip_blocks ?resp b \<and> spec_strip_close b c \<longrightarrow> c = clean"
    and a: "spec_answer clean (extract_answer_letter [?resp] ! 0)"
    by auto
  from u r1 r2 have "clean = ''I pick b.''" by blast
  with a e have "spec_answer ''I pick b.'' ''B''" by simp
  with r1 r2 e show ?thesis by blast
qed

section \<open>JSON values and Python dictionaries\<close>

text \<open>
  What \<open>json.loads\<close> returns. A float is the rational it denotes, or one of the three
  special values the parser accepts. An object is a \<open>dict\<close>: an association list in
  insertion order whose keys are distinct.
\<close>

datatype pyfloat = Finite rat | NaN | PosInf | NegInf

datatype json =
    JNull
  | JBool bool
  | JInt int
  | JFloat pyfloat
  | JStr string
  | JArr "json list"
  | JObj "(string \<times> json) list"

type_synonym dict = "(string \<times> json) list"

text \<open>Python's truth value of a JSON value.\<close>

fun truthy :: "json \<Rightarrow> bool" where
  "truthy JNull = False"
| "truthy (JBool b) = b"
| "truthy (JInt n) = (n \<noteq> 0)"
| "truthy (JFloat f) = (f \<noteq> Finite 0)"
| "truthy (JStr s) = (s \<noteq> [])"
| "truthy (JArr xs) = (xs \<noteq> [])"
| "truthy (JObj kvs) = (kvs \<noteq> [])"

text \<open>
  \<open>d.get(k)\<close> is \<open>None\<close> for a missing key; \<open>d[k] = v\<close> keeps the place of a key that is
  there and appends a new one; \<open>d.pop(k, None)\<close> removes the key if it is there.
\<close>

definition dict_get :: "dict \<Rightarrow> string \<Rightarrow> json option" where
  "dict_get d k = map_of d k"

definition dict_set :: "string \<Rightarrow> json \<Rightarrow> dict \<Rightarrow> dict" where
  "dict_set k v d = AList.update k v d"

definition dict_pop :: "string \<Rightarrow> dict \<Rightarrow> dict" where
  "dict_pop k d = AList.delete k d"

text \<open>The truth value of \<open>d.get(k)\<close>.\<close>

definition get_truthy :: "dict \<Rightarrow> string \<Rightarrow> bool" where
  "get_truthy d k = (case dict_get d k of None \<Rightarrow> False | Some v \<Rightarrow> truthy v)"

datatype exn =
    TypeError
  | AttributeError
  | ValueError
  | JSONDecodeError
  | UnicodeDecodeError
  | OtherError string

text \<open>
  \<open>for x in v\<close>: a list gives its elements, a string its characters, a dict its keys;
  nothing else can be iterated.
\<close>

fun py_iter :: "json \<Rightarrow> exn + json list" where
  "py_iter (JArr xs) = Inr xs"
| "py_iter (JStr s) = Inr (map (\<lambda>c. JStr [c]) s)"
| "py_iter (JObj kvs) = Inr (map (\<lambda>kv. JStr (fst kv)) kvs)"
| "py_iter _ = Inl TypeError"

section \<open>Response Normalizer (reasoning_proxy.py)\<close>

definition markers :: "string list" where
  "markers = [''</think>'', ''</reasoning>'', ''**Answer:**'', ''Answer:'']"

text \<open>\<open>s.split(sep, 1)\<close>: one part where \<open>sep\<close> does not occur, two where it does.\<close>

definition py_split1 :: "string \<Rightarrow> string \<Rightarrow> string list" where
  "py_split1 sep s = (case split_once sep s of None \<Rightarrow> [s] | Some (pre, post) \<Rightarrow> [pre, post])"

text \<open>The loop over the markers; it stops at the first marker that sets \<open>content\<close>.\<close>

fun marker_loop :: "string \<Rightarrow> string list \<Rightarrow> dict \<Rightarrow> dict" where
  "marker_loop reasoning [] message = message"
| "marker_loop reasoning (marker # rest) message =
     (if contains marker reasoning then
        (let parts = py_split1 marker reasoning in
         if length parts > 1 \<and> py_strip (parts ! 1) \<noteq> []
         then dict_set ''content'' (JStr (py_strip (parts ! 1))) message
         else marker_loop reasoning rest message)
      else marker_loop reasoning rest message)"

text \<open>The fallback behind the loop, run while \<open>content\<close> is still empty.\<close>

definition last_line_fallback :: "string \<Rightarrow> dict \<Rightarrow> dict" where
  "last_line_fallback reasoning message =
     (if \<not> get_truthy message ''content'' then
        (let lines = map py_strip (filter (\<lambda>l. py_strip l \<noteq> []) (split_lines (py_strip reasoning)))
         in if lines \<noteq> [] then dict_set ''content'' (JStr (last lines)) message
            else dict_set ''content'' (JStr reasoning) message)
      else message)"

text \<open>
  Lines 60 to 79 for one message. A \<open>reasoning_content\<close> that is true but no string
  raises: \<open>marker in reasoning\<close> is a TypeError on a number or a boolean, and a list or a
  dict has no \<open>split\<close> and no \<open>strip\<close>.
\<close>

definition convert_message :: "dict \<Rightarrow> exn + dict" where
  "convert_message message =
     (if \<not> get_truthy message ''content'' \<and> get_truthy message ''reasoning_content'' then
        (case dict_get message ''reasoning_content'' of
           Some (JStr reasoning) \<Rightarrow>
             Inr (last_line_fallback reasoning (marker_loop reasoning markers message))
         | Some (JArr xs) \<Rightarrow> Inl AttributeError
         | Some (JObj kvs) \<Rightarrow> Inl AttributeError
         | _ \<Rightarrow> Inl TypeError)
      else Inr message)"

text \<open>
  One pass of the loop over the choices. \<open>choice.get('message', {})\<close> needs a dict, and
  so does \<open>message.get\<close>; the message is changed in place, inside the choice. Without a
  \<open>message\<close> key the default is a fresh empty dict, which has no reasoning.
\<close>

definition convert_choice :: "json \<Rightarrow> exn + json" where
  "convert_choice choice =
     (case choice of
        JObj c \<Rightarrow>
          (case dict_get c ''message'' of
             None \<Rightarrow> Inr (JObj c)
           | Some (JObj message) \<Rightarrow>
               (case convert_message message of
                  Inl e \<Rightarrow> Inl e
                | Inr message' \<Rightarrow> Inr (JObj (dict_set ''message'' (JObj message') c)))
           | Some _ \<Rightarrow> Inl AttributeError)
      | _ \<Rightarrow> Inl AttributeError)"

fun convert_choices :: "json list \<Rightarrow> exn + json list" where
  "convert_choices [] = Inr []"
| "convert_choices (choice # rest) =
     (case convert_choice choice of
        Inl e \<Rightarrow> Inl e
      | Inr choice' \<Rightarrow>
          (case convert_choices rest of
             Inl e \<Rightarrow> Inl e
           | Inr rest' \<Rightarrow> Inr (choice' # rest')))"

text \<open>
  Lines 55 to 79 on the parsed response. \<open>'choices' in response_data\<close> is a key test on
  a dict, a membership test on a list and a substring test on a string, and
  \<open>response_data['choices']\<close> needs a dict. The choices are changed in place: a list of
  choices stays a list; a string or a dict in that place is iterated, and each of its
  items fails at \<open>choice.get\<close>.
\<close>

definition convert_response :: "json \<Rightarrow> exn + json" where
  "convert_response response_data =
     (case response_data of
        JObj r \<Rightarrow>
          (case dict_get r ''choices'' of
             None \<Rightarrow> Inr (JObj r)
           | Some (JArr choices) \<Rightarrow>
               (case convert_choices choices of
                  Inl e \<Rightarrow> Inl e
                | Inr choices' \<Rightarrow> Inr (JObj (dict_set ''choices'' (JArr choices') r)))
           | Some other \<Rightarrow>
               (case py_iter other of
                  Inl e \<Rightarrow> Inl e
                | Inr items \<Rightarrow>
                    (case convert_choices items of
                       Inl e \<Rightarrow> Inl e
                     | Inr _ \<Rightarrow> Inr (JObj r))))
      | JArr xs \<Rightarrow> (if JStr ''choices'' \<in> set xs then Inl TypeError else Inr (JArr xs))
      | JStr s \<Rightarrow> (if contains ''choices'' s then Inl TypeError else Inr (JStr s))
      | _ \<Rightarrow> Inl TypeError)"

text \<open>
  The words of the specification: the trimmed text behind the first occurrence of a
  marker (empty where the marker does not occur), the non-empty trimmed lines of the
  reasoning, and the content derived from them: the trailing text of the first marker
  in priority order that has any, else the last such line, else the reasoning as it is.
\<close>

definition spec_trailing :: "string \<Rightarrow> string \<Rightarrow> string" where
  "spec_trailing marker r =
     (case split_once marker r of None \<Rightarrow> [] | Some (pre, post) \<Rightarrow> py_strip post)"

definition spec_lines :: "string \<Rightarrow> string list" where
  "spec_lines r = filter (\<lambda>l. l \<noteq> []) (map py_strip (split_lines r))"

definition spec_content :: "string \<Rightarrow> string" where
  "spec_content r =
     (case filter (\<lambda>t. t \<noteq> []) (map (\<lambda>marker. spec_trailing marker r) markers) of
        t # _ \<Rightarrow> t
      | [] \<Rightarrow> (if spec_lines r = [] then r else last (spec_lines r)))"

lemma split_lines_not_Nil: "split_lines s \<noteq> []"
  by (induction s) (auto split: list.splits)

lemma py_strip_Nil: "py_strip [] = []"
  by (simp add: py_strip_def)

lemma py_strip_space_Cons: "is_space c \<Longrightarrow> py_strip (c # l) = py_strip l"
  by (simp add: py_strip_def)

lemma py_strip_space_snoc: "is_space c \<Longrightarrow> py_strip (l @ [c]) = py_strip l"
proof (cases "\<forall>x\<in>set l. is_space x")
  case True
  assume c: "is_space c"
  from True have "dropWhile is_space l = []"
    unfolding dropWhile_eq_Nil_conv by blast
  moreover from True c have "dropWhile is_space (l @ [c]) = []"
    unfolding dropWhile_eq_Nil_conv by auto
  ultimately show ?thesis by (simp only: py_strip_def rev.simps dropWhile.simps)
next
  case False
  assume c: "is_space c"
  from False have "dropWhile is_space (l @ [c]) = dropWhile is_space l @ [c]"
    by (auto simp: dropWhile_append1)
  with c show ?thesis by (simp add: py_strip_def)
qed

lemma is_space_newline: "is_space (CHR 0x0A)"
  by (simp add: is_space_def)

lemma spec_lines_space_Cons: "is_space c \<Longrightarrow> spec_lines (c # cs) = spec_lines cs"
proof -
  assume c: "is_space c"
  obtain l ls where L: "split_lines cs = l # ls"
    using split_lines_not_Nil [of cs] by (cases "split_lines cs") auto
  show ?thesis
    using c L by (simp add: spec_lines_def py_strip_Nil py_strip_space_Cons)
qed

lemma spec_lines_lstrip: "spec_lines (dropWhile is_space r) = spec_lines r"
  by (induction r) (simp_all add: spec_lines_space_Cons)

lemma split_lines_snoc:
  "split_lines (xs @ [c]) =
     (if c = CHR 0x0A then split_lines xs @ [[]]
      else butlast (split_lines xs) @ [last (split_lines xs) @ [c]])"
proof (induction xs)
  case Nil
  show ?case by simp
next
  case (Cons x xs)
  obtain l ls where L: "split_lines xs = l # ls"
    using split_lines_not_Nil [of xs] by (cases "split_lines xs") auto
  obtain l' ls' where L': "split_lines (xs @ [c]) = l' # ls'"
    using split_lines_not_Nil [of "xs @ [c]"] by (cases "split_lines (xs @ [c])") auto
  show ?case using Cons.IH L L' split_lines_not_Nil [of xs]
    by (auto split: if_splits)
qed

lemma spec_lines_space_snoc: "is_space c \<Longrightarrow> spec_lines (xs @ [c]) = spec_lines xs"
proof -
  assume c: "is_space c"
  let ?L = "split_lines xs"
  have L: "?L = butlast ?L @ [last ?L]" using split_lines_not_Nil [of xs] by simp
  have "spec_lines xs = filter (\<lambda>l. l \<noteq> []) (map py_strip (butlast ?L @ [last ?L]))"
    unfolding spec_lines_def using L by simp
  then show ?thesis
    using c by (simp add: spec_lines_def split_lines_snoc py_strip_space_snoc py_strip_Nil)
qed

lemma spec_lines_rstrip: "spec_lines (rev (dropWhile is_space (rev r))) = spec_lines r"
  by (induction r rule: rev_induct) (simp_all add: spec_lines_space_snoc)

lemma spec_lines_py_strip: "spec_lines (py_strip r) = spec_lines r"
  unfolding py_strip_def by (simp add: spec_lines_rstrip spec_lines_lstrip)

lemma dict_get_set: "dict_get (dict_set k v d) k' = (if k' = k then Some v else dict_get d k')"
  by (simp add: dict_get_def dict_set_def update_conv')

lemma marker_loop_spec:
  "marker_loop r ms message =
     (case filter (\<lambda>t. t \<noteq> []) (map (\<lambda>marker. spec_trailing marker r) ms) of
        t # _ \<Rightarrow> dict_set ''content'' (JStr t) message
      | [] \<Rightarrow> message)"
proof (induction ms)
  case Nil
  show ?case by simp
next
  case (Cons mk ms)
  show ?case
  proof (cases "split_once mk r")
    case None
    with Cons.IH show ?thesis by (simp add: contains_def spec_trailing_def)
  next
    case (Some p)
    then obtain pre post where p: "split_once mk r = Some (pre, post)" by (cases p) auto
    with Cons.IH show ?thesis
      by (simp add: contains_def spec_trailing_def py_split1_def)
  qed
qed

lemma last_line_fallback_spec:
  assumes "\<not> get_truthy message ''content''"
  shows "last_line_fallback r message =
     dict_set ''content'' (JStr (if spec_lines r = [] then r else last (spec_lines r))) message"
proof -
  have "map py_strip (filter (\<lambda>l. py_strip l \<noteq> []) (split_lines (py_strip r)))
        = spec_lines (py_strip r)"
    by (simp add: spec_lines_def filter_map comp_def)
  then show ?thesis using assms
    by (simp add: last_line_fallback_def spec_lines_py_strip Let_def)
qed

lemma convert_message_spec:
  assumes c: "\<not> get_truthy message ''content''"
    and r: "dict_get message ''reasoning_content'' = Some (JStr r)" and ne: "r \<noteq> []"
  shows "convert_message message = Inr (dict_set ''content'' (JStr (spec_content r)) message)"
proof -
  let ?ts = "filter (\<lambda>t. t \<noteq> []) (map (\<lambda>marker. spec_trailing marker r) markers)"
  have g: "get_truthy message ''reasoning_content''" using r ne by (simp add: get_truthy_def)
  have "last_line_fallback r (marker_loop r markers message)
        = dict_set ''content'' (JStr (spec_content r)) message"
  proof (cases ?ts)
    case Nil
    then show ?thesis
      using c by (simp add: marker_loop_spec last_line_fallback_spec spec_content_def)
  next
    case (Cons t ts)
    then have "t \<in> set ?ts" by simp
    then have "t \<noteq> []" by simp
    then have "get_truthy (dict_set ''content'' (JStr t) message) ''content''"
      by (simp add: get_truthy_def dict_get_set)
    with Cons show ?thesis
      by (simp add: marker_loop_spec last_line_fallback_def spec_content_def)
  qed
  with c g r show ?thesis by (simp add: convert_message_def)
qed

lemma convert_message_keeps:
  "get_truthy message ''content'' \<Longrightarrow> convert_message message = Inr message"
  by (simp add: convert_message_def)

lemma dict_set_same: "dict_get d k = Some v \<Longrightarrow> dict_set k v d = d"
  by (simp add: dict_get_def dict_set_def update_triv)

lemma convert_choice_keeps:
  assumes "dict_get c ''message'' = Some (JObj message)" and "get_truthy message ''content''"
  shows "convert_choice (JObj c) = Inr (JObj c)"
  using assms by (simp add: convert_choice_def convert_message_keeps dict_set_same)

lemma convert_choices_nth:
  "convert_choices cs = Inr cs' \<Longrightarrow>
     length cs' = length cs \<and> (\<forall>k<length cs. convert_choice (cs ! k) = Inr (cs' ! k))"
proof (induction cs arbitrary: cs')
  case Nil
  then show ?case by simp
next
  case (Cons x xs)
  from Cons.prems obtain x' xs' where x: "convert_choice x = Inr x'"
    and xs: "convert_choices xs = Inr xs'" and cs': "cs' = x' # xs'"
    by (auto split: sum.splits)
  from Cons.IH [OF xs] x cs' show ?case by (auto simp: nth_Cons split: nat.splits)
qed

text \<open>
  Claim C1, amended: for a choice whose message has empty or absent content and a
  non-empty string as \<open>reasoning_content\<close>, the content becomes the trimmed text behind
  the first marker, in the order \<open></think>\<close>, \<open></reasoning>\<close>, \<open>**Answer:**\<close>, \<open>Answer:\<close>,
  whose trailing text is non-empty after trimming; without such a marker it becomes the
  last non-empty trimmed line of the reasoning, or the reasoning itself, untrimmed, if
  there is no such line. The reasoning \<open>blah </think> 42\<close> gives the content \<open>42\<close>.
\<close>

theorem convert_choice_derives_content:
  assumes "dict_get c ''message'' = Some (JObj message)"
    and "\<not> get_truthy message ''content''"
    and "dict_get message ''reasoning_content'' = Some (JStr r)"
    and "r \<noteq> []"
  shows "convert_choice (JObj c)
           = Inr (JObj (dict_set ''message''
                          (JObj (dict_set ''content'' (JStr (spec_content r)) message)) c))
         \<and> spec_content ''blah </think> 42'' = ''42''"
proof -
  have "spec_content ''blah </think> 42'' = ''42''" by code_simp
  then show ?thesis
    using assms by (simp add: convert_choice_def convert_message_spec)
qed

theorem convert_choice_derives_content_witness:
  "convert_choice (JObj [(''index'', JInt 0),
       (''message'', JObj [(''content'', JStr []),
                           (''reasoning_content'', JStr ''blah </think> 42'')])])
     = Inr (JObj [(''index'', JInt 0),
       (''message'', JObj [(''content'', JStr ''42''),
                           (''reasoning_content'', JStr ''blah </think> 42'')])])"
proof -
  let ?m = "[(''content'', JStr []), (''reasoning_content'', JStr ''blah </think> 42'')]"
  let ?c = "[(''index'', JInt 0), (''message'', JObj ?m)]"
  have 1: "dict_get ?c ''message'' = Some (JObj ?m)" by (simp add: dict_get_def)
  have 2: "\<not> get_truthy ?m ''content''" by (simp add: get_truthy_def dict_get_def)
  have 3: "dict_get ?m ''reasoning_content'' = Some (JStr ''blah </think> 42'')"
    by (simp add: dict_get_def)
  have 4: "''blah </think> 42'' \<noteq> []" by simp
  from convert_choice_derives_content [OF 1 2 3 4]
  show ?thesis by (simp add: dict_set_def)
qed

text \<open>
  The claim as first stated asks for the trimmed reasoning where there is no non-empty
  line. A reasoning of one blank has no marker and no such line; its content is the
  blank itself, not its trimmed text.
\<close>

theorem convert_message_untrimmed_counterexample:
  "convert_message [(''content'', JStr []), (''reasoning_content'', JStr '' '')]
     = Inr [(''content'', JStr '' ''), (''reasoning_content'', JStr '' '')]
   \<and> spec_lines '' '' = [] \<and> py_strip '' '' \<noteq> '' ''"
  by code_simp

text \<open>
  Claim C6: a choice whose message has non-empty content is left as it is, whatever
  its \<open>reasoning_content\<close>: converting the choice returns the choice, and where the
  response is converted, the choice stands unchanged at its place in \<open>choices\<close>.
\<close>

theorem convert_response_keeps_choice:
  assumes "dict_get c ''message'' = Some (JObj message)"
    and "get_truthy message ''content''"
  shows "convert_choice (JObj c) = Inr (JObj c)
         \<and> (\<forall>r cs out k. convert_response (JObj r) = Inr out
               \<and> dict_get r ''choices'' = Some (JArr cs) \<and> k < length cs \<and> cs ! k = JObj c
               \<longrightarrow> (\<exists>cs'. out = JObj (dict_set ''choices'' (JArr cs') r)
                      \<and> length cs' = length cs \<and> cs' ! k = JObj c))"
proof (intro conjI allI impI)
  show keep: "convert_choice (JObj c) = Inr (JObj c)"
    using assms by (rule convert_choice_keeps)
  fix r cs out k
  assume a: "convert_response (JObj r) = Inr out
               \<and> dict_get r ''choices'' = Some (JArr cs) \<and> k < length cs \<and> cs ! k = JObj c"
  then obtain cs' where cs': "convert_choices cs = Inr cs'"
    and out: "out = JObj (dict_set ''choices'' (JArr cs') r)"
    by (auto simp: convert_response_def split: sum.splits)
  from convert_choices_nth [OF cs'] a keep have "length cs' = length cs" "cs' ! k = JObj c"
    by auto
  with out show "\<exists>cs'. out = JObj (dict_set ''choices'' (JArr cs') r)
                      \<and> length cs' = length cs \<and> cs' ! k = JObj c" by blast
qed

theorem convert_response_keeps_choice_witness:
  "convert_response (JObj [(''choices'', JArr
       [JObj [(''message'', JObj [(''reasoning_content'', JStr ''x Answer: 7'')])],
        JObj [(''message'', JObj [(''content'', JStr ''kept''),
                                  (''reasoning_content'', JStr ''x Answer: 7'')])]])])
   = Inr (JObj [(''choices'', JArr
       [JObj [(''message'', JObj [(''reasoning_content'', JStr ''x Answer: 7''),
                                  (''content'', JStr ''7'')])],
        JObj [(''message'', JObj [(''content'', JStr ''kept''),
                                  (''reasoning_content'', JStr ''x Answer: 7'')])]])])
   \<and> convert_choice (JObj [(''message'', JObj [(''content'', JStr ''kept''),
                                  (''reasoning_content'', JStr ''x Answer: 7'')])])
     = Inr (JObj [(''message'', JObj [(''content'', JStr ''kept''),
                                  (''reasoning_content'', JStr ''x Answer: 7'')])])"
proof -
  let ?m = "[(''content'', JStr ''kept''), (''reasoning_content'', JStr ''x Answer: 7'')]"
  let ?c = "[(''message'', JObj ?m)]"
  have 1: "dict_get ?c ''message'' = Some (JObj ?m)" by (simp add: dict_get_def)
  have 2: "get_truthy ?m ''content''" by (simp add: get_truthy_def dict_get_def)
  have 3: "convert_response (JObj [(''choices'', JArr
       [JObj [(''message'', JObj [(''reasoning_content'', JStr ''x Answer: 7'')])],
        JObj ?c])])
   = Inr (JObj [(''choices'', JArr
       [JObj [(''message'', JObj [(''reasoning_content'', JStr ''x Answer: 7''),
                                  (''content'', JStr ''7'')])],
        JObj ?c])])" by code_simp
  from convert_response_keeps_choice [OF 1 2] 3 show ?thesis by simp
qed

section \<open>Request Normalizer (groq_proxy.py)\<close>

text \<open>The two class attributes of \<open>GroqProxyHandler\<close>, set once by \<open>main\<close>.\<close>

record config =
  reasoning_hidden :: bool
  reasoning_effort :: string

text \<open>
  What \<open>do_POST\<close> reads of a request: the path, the outcome of
  \<open>int(self.headers.get("Content-Length", 0))\<close> (\<open>None\<close> where \<open>int\<close> raises ValueError),
  and the bytes that \<open>self.rfile.read\<close> returns.
\<close>

record request =
  req_path :: string
  req_content_length :: "int option"
  req_body :: string

text \<open>
  The outcome of \<open>urllib.request.urlopen\<close>: a response body, an HTTPError with its
  code and body (\<open>None\<close> where the body is no UTF-8 text, so that \<open>decode\<close> raises), or
  any other exception with its message.
\<close>

datatype upstream_result =
    UpstreamOK string
  | UpstreamHTTPError nat "string option"
  | UpstreamFailure string

text \<open>
  What the client gets: \<open>send_error\<close> with a status and a message, a relayed status
  and body, or nothing where an exception leaves the handler.
\<close>

datatype reply =
    SendError nat string
  | SendResponse nat string
  | Uncaught exn

text \<open>Lines 63 to 69 for one entry of \<open>messages\<close>; \<open>msg.get\<close> needs a dict.\<close>

definition clean_message :: "json \<Rightarrow> exn + json" where
  "clean_message msg =
     (case msg of
        JObj m \<Rightarrow>
          (let cleaned_msg =
                 [(''role'', case dict_get m ''role'' of None \<Rightarrow> JStr ''user'' | Some v \<Rightarrow> v),
                  (''content'', case dict_get m ''content'' of None \<Rightarrow> JStr [] | Some v \<Rightarrow> v)]
           in case dict_get m ''name'' of
                None \<Rightarrow> Inr (JObj cleaned_msg)
              | Some n \<Rightarrow>
                  if truthy n then Inr (JObj (dict_set ''name'' n cleaned_msg))
                  else Inr (JObj cleaned_msg))
      | _ \<Rightarrow> Inl AttributeError)"

fun clean_loop :: "json list \<Rightarrow> json list \<Rightarrow> exn + json list" where
  "clean_loop cleaned_messages [] = Inr cleaned_messages"
| "clean_loop cleaned_messages (msg # rest) =
     (case clean_message msg of
        Inl e \<Rightarrow> Inl e
      | Inr cleaned_msg \<Rightarrow> clean_loop (cleaned_messages @ [cleaned_msg]) rest)"

text \<open>
  Lines 60 to 71. \<open>"messages" in data\<close> is a key test on a dict, a membership test on
  a list and a substring test on a string; \<open>data["messages"]\<close> needs a dict.
\<close>

definition transform_messages :: "json \<Rightarrow> exn + json" where
  "transform_messages data =
     (case data of
        JObj d \<Rightarrow>
          (case dict_get d ''messages'' of
             None \<Rightarrow> Inr (JObj d)
           | Some messages \<Rightarrow>
               (case py_iter messages of
                  Inl e \<Rightarrow> Inl e
                | Inr items \<Rightarrow>
                    (case clean_loop [] items of
                       Inl e \<Rightarrow> Inl e
                     | Inr cleaned_messages \<Rightarrow>
                         Inr (JObj (dict_set ''messages'' (JArr cleaned_messages) d)))))
      | JArr xs \<Rightarrow> (if JStr ''messages'' \<in> set xs then Inl TypeError else Inr (JArr xs))
      | JStr s \<Rightarrow> (if contains ''messages'' s then Inl TypeError else Inr (JStr s))
      | _ \<Rightarrow> Inl TypeError)"

text \<open>Lines 74 to 76; an item assignment needs a dict.\<close>

definition add_reasoning :: "config \<Rightarrow> json \<Rightarrow> exn + json" where
  "add_reasoning cfg data =
     (if reasoning_hidden cfg then
        (case data of
           JObj d \<Rightarrow>
             Inr (JObj (dict_set ''reasoning_effort'' (JStr (reasoning_effort cfg))
                          (dict_set ''reasoning_format'' (JStr ''hidden'') d)))
         | _ \<Rightarrow> Inl TypeError)
      else Inr data)"

text \<open>
  Lines 79 and 80. A list has a \<open>pop\<close> that takes one argument at most, and the other
  values have none.
\<close>

definition remove_unsupported :: "json \<Rightarrow> exn + json" where
  "remove_unsupported data =
     (case data of
        JObj d \<Rightarrow> Inr (JObj (dict_pop ''extra_body'' (dict_pop ''tokenized_requests'' d)))
      | JArr xs \<Rightarrow> Inl TypeError
      | _ \<Rightarrow> Inl AttributeError)"

text \<open>Lines 60 to 80 in sequence.\<close>

definition transform_request :: "config \<Rightarrow> json \<Rightarrow> exn + json" where
  "transform_request cfg data =
     (case transform_messages data of
        Inl e \<Rightarrow> Inl e
      | Inr data1 \<Rightarrow>
          (case add_reasoning cfg data1 of
             Inl e \<Rightarrow> Inl e
           | Inr data2 \<Rightarrow> remove_unsupported data2))"

text \<open>
  \<open>do_POST\<close>. \<open>groq_api_key\<close> is \<open>os.environ.get("GROQ_API_KEY")\<close>; \<open>json_loads\<close> and
  \<open>urlopen\<close> stand for the two library calls. The result is the reply to the client and
  the list of bodies sent upstream, each as the value that \<open>json.dumps\<close> serializes.
  Only JSONDecodeError is caught around \<open>json.loads\<close>, and lines 60 to 80 are outside
  every \<open>try\<close>.
\<close>

definition do_POST ::
  "config \<Rightarrow> string option \<Rightarrow> (string \<Rightarrow> exn + json) \<Rightarrow> (json \<Rightarrow> upstream_result)
     \<Rightarrow> request \<Rightarrow> reply \<times> json list" where
  "do_POST cfg groq_api_key json_loads urlopen req =
     (if \<not> suffix ''/chat/completions'' (req_path req) then (SendError 404 ''Not Found'', [])
      else
        (case req_content_length req of
           None \<Rightarrow> (Uncaught ValueError, [])
         | Some content_length \<Rightarrow>
             (case json_loads (req_body req) of
                Inl e \<Rightarrow>
                  (if e = JSONDecodeError then (SendError 400 ''Invalid JSON'', [])
                   else (Uncaught e, []))
              | Inr data \<Rightarrow>
                  (case transform_request cfg data of
                     Inl e \<Rightarrow> (Uncaught e, [])
                   | Inr data' \<Rightarrow>
                       (if groq_api_key = None \<or> groq_api_key = Some [] then
                          (SendError 500 ''GROQ_API_KEY not set'', [])
                        else
                          (case urlopen data' of
                             UpstreamOK response_body \<Rightarrow>
                               (SendResponse 200 response_body, [data'])
                           | UpstreamHTTPError code None \<Rightarrow>
                               (Uncaught UnicodeDecodeError, [data'])
                           | UpstreamHTTPError code (Some error_body) \<Rightarrow>
                               (SendResponse code error_body, [data'])
                           | UpstreamFailure msg \<Rightarrow> (SendError 500 msg, [data'])))))))"


text \<open>
  The words of the specification for one normalized message: \<open>role\<close> and \<open>content\<close>
  with their defaults, and \<open>name\<close> behind them where the original has a true one.
\<close>

definition spec_message :: "dict \<Rightarrow> dict" where
  "spec_message m =
     [(''role'', case dict_get m ''role'' of None \<Rightarrow> JStr ''user'' | Some v \<Rightarrow> v),
      (''content'', case dict_get m ''content'' of None \<Rightarrow> JStr [] | Some v \<Rightarrow> v)]
     @ (if get_truthy m ''name'' then [(''name'', the (dict_get m ''name''))] else [])"

definition reply_status :: "reply \<Rightarrow> nat option" where
  "reply_status r =
     (case r of SendError code msg \<Rightarrow> Some code
              | SendResponse code b \<Rightarrow> Some code
              | Uncaught e \<Rightarrow> None)"

text \<open>A request body as \<open>lm-eval\<close> sends it, the startup configuration and a request.\<close>

definition example_messages :: "json list" where
  "example_messages =
     [JObj [(''role'', JStr ''system''), (''content'', JStr ''hi''), (''name'', JStr []),
            (''type'', JStr ''text'')],
      JObj [(''name'', JStr ''bob''), (''tool_calls'', JArr [])]]"

definition example_data :: dict where
  "example_data =
     [(''model'', JStr ''openai/gpt-oss-20b''), (''messages'', JArr example_messages),
      (''extra_body'', JNull), (''tokenized_requests'', JBool False)]"

definition example_forwarded :: json where
  "example_forwarded =
     JObj [(''model'', JStr ''openai/gpt-oss-20b''),
           (''messages'', JArr
              [JObj [(''role'', JStr ''system''), (''content'', JStr ''hi'')],
               JObj [(''role'', JStr ''user''), (''content'', JStr []),
                     (''name'', JStr ''bob'')]]),
           (''reasoning_format'', JStr ''hidden''),
           (''reasoning_effort'', JStr ''medium'')]"

definition example_config :: config where
  "example_config = \<lparr>reasoning_hidden = True, reasoning_effort = ''medium''\<rparr>"

definition example_request :: request where
  "example_request =
     \<lparr>req_path = ''/v1/chat/completions'', req_content_length = Some 2, req_body = ''{}''\<rparr>"

lemma dict_get_pop: "dict_get (dict_pop k d) k' = (if k' = k then None else dict_get d k')"
  by (simp add: dict_get_def dict_pop_def delete_conv')

lemma do_POST_forwarded:
  assumes "fwd \<in> set (snd (do_POST cfg key json_loads urlopen req))"
  shows "\<exists>data. json_loads (req_body req) = Inr data \<and> transform_request cfg data = Inr fwd"
  using assms unfolding do_POST_def
  by (auto split: if_splits option.splits sum.splits upstream_result.splits)

lemma transform_messages_dict:
  assumes "transform_messages data = Inr data1"
  shows "(\<exists>d d1. data = JObj d \<and> data1 = JObj d1) \<or> data1 = data \<and> (\<forall>d. data \<noteq> JObj d)"
  using assms unfolding transform_messages_def
  by (cases data) (auto split: if_splits option.splits sum.splits)

lemma transform_request_shape:
  assumes "transform_request cfg data = Inr fwd"
  shows "\<exists>d d1. data = JObj d \<and> transform_messages (JObj d) = Inr (JObj d1)
           \<and> fwd = JObj (dict_pop ''extra_body'' (dict_pop ''tokenized_requests''
                 (if reasoning_hidden cfg
                  then dict_set ''reasoning_effort'' (JStr (reasoning_effort cfg))
                         (dict_set ''reasoning_format'' (JStr ''hidden'') d1)
                  else d1)))"
proof -
  from assms obtain data1 data2 where 1: "transform_messages data = Inr data1"
    and 2: "add_reasoning cfg data1 = Inr data2" and 3: "remove_unsupported data2 = Inr fwd"
    by (auto simp: transform_request_def split: sum.splits)
  from 3 obtain d2 where d2: "data2 = JObj d2"
    and fwd: "fwd = JObj (dict_pop ''extra_body'' (dict_pop ''tokenized_requests'' d2))"
    by (cases data2) (auto simp: remove_unsupported_def)
  from 2 d2 obtain d1 where d1: "data1 = JObj d1"
    and d2': "d2 = (if reasoning_hidden cfg
                  then dict_set ''reasoning_effort'' (JStr (reasoning_effort cfg))
                         (dict_set ''reasoning_format'' (JStr ''hidden'') d1)
                  else d1)"
    by (cases data1) (auto simp: add_reasoning_def split: if_splits)
  from transform_messages_dict [OF 1] d1 obtain d where "data = JObj d" by auto
  with 1 d1 d2' fwd show ?thesis by auto
qed

lemma clean_message_spec:
  assumes "clean_message msg = Inr c"
  shows "\<exists>m. msg = JObj m \<and> c = JObj (spec_message m)"
proof (cases msg)
  case (JObj m)
  with assms have "c = JObj (spec_message m)"
    by (auto simp: clean_message_def spec_message_def get_truthy_def dict_set_def Let_def
             split: option.splits if_splits)
  with JObj show ?thesis by simp
qed (use assms in \<open>auto simp: clean_message_def\<close>)

lemma clean_loop_spec:
  "clean_loop acc msgs = Inr cleaned \<Longrightarrow>
     \<exists>cs. cleaned = acc @ cs \<and> length cs = length msgs
          \<and> (\<forall>k<length msgs. clean_message (msgs ! k) = Inr (cs ! k))"
proof (induction msgs arbitrary: acc)
  case Nil
  then show ?case by simp
next
  case (Cons msg rest)
  from Cons.prems obtain c where c: "clean_message msg = Inr c"
    and l: "clean_loop (acc @ [c]) rest = Inr cleaned"
    by (auto split: sum.splits)
  from Cons.IH [OF l] obtain cs where cs: "cleaned = (acc @ [c]) @ cs"
    "length cs = length rest" "\<forall>k<length rest. clean_message (rest ! k) = Inr (cs ! k)"
    by blast
  have "\<forall>k<length (msg # rest). clean_message ((msg # rest) ! k) = Inr ((c # cs) ! k)"
    using c cs(3) by (auto simp: nth_Cons split: nat.splits)
  with cs(1,2) show ?case by (intro exI [of _ "c # cs"]) simp
qed

lemma spec_message_keys:
  "map fst (spec_message m)
     = [''role'', ''content''] @ (if get_truthy m ''name'' then [''name''] else [])"
  by (simp add: spec_message_def)

lemma transform_messages_list:
  assumes "transform_messages (JObj d) = Inr (JObj d1)"
    and "dict_get d ''messages'' = Some (JArr msgs)"
  shows "\<exists>cleaned. clean_loop [] msgs = Inr cleaned
           \<and> d1 = dict_set ''messages'' (JArr cleaned) d"
  using assms by (auto simp: transform_messages_def split: sum.splits)

text \<open>
  Claim C2: where the parsed body holds a list of messages, every message of the
  forwarded body has the key \<open>role\<close> (the original value, or \<open>user\<close> if absent), the
  key \<open>content\<close> (the original value, or the empty string if absent), the key \<open>name\<close>
  exactly if the original has a \<open>name\<close> that is true, and no other key.
\<close>

theorem do_POST_normalizes_messages:
  assumes "fwd \<in> set (snd (do_POST cfg key json_loads urlopen req))"
    and "json_loads (req_body req) = Inr (JObj d)"
    and "dict_get d ''messages'' = Some (JArr msgs)"
  shows "\<exists>fd cleaned. fwd = JObj fd \<and> dict_get fd ''messages'' = Some (JArr cleaned)
           \<and> length cleaned = length msgs
           \<and> (\<forall>k<length msgs. \<exists>m. msgs ! k = JObj m \<and> cleaned ! k = JObj (spec_message m)
                 \<and> map fst (spec_message m)
                     = [''role'', ''content'']
                       @ (if get_truthy m ''name'' then [''name''] else []))"
proof -
  from do_POST_forwarded [OF assms(1)] assms(2)
  have "transform_request cfg (JObj d) = Inr fwd" by simp
  from transform_request_shape [OF this] obtain d1 where
    1: "transform_messages (JObj d) = Inr (JObj d1)"
    and fwd: "fwd = JObj (dict_pop ''extra_body'' (dict_pop ''tokenized_requests''
                 (if reasoning_hidden cfg
                  then dict_set ''reasoning_effort'' (JStr (reasoning_effort cfg))
                         (dict_set ''reasoning_format'' (JStr ''hidden'') d1)
                  else d1)))"
    by auto
  from transform_messages_list [OF 1 assms(3)] obtain cleaned where
    loop: "clean_loop [] msgs = Inr cleaned"
    and d1: "d1 = dict_set ''messages'' (JArr cleaned) d" by blast
  from clean_loop_spec [OF loop] have len: "length cleaned = length msgs"
    and each: "\<forall>k<length msgs. clean_message (msgs ! k) = Inr (cleaned ! k)" by auto
  let ?fd = "dict_pop ''extra_body'' (dict_pop ''tokenized_requests''
                 (if reasoning_hidden cfg
                  then dict_set ''reasoning_effort'' (JStr (reasoning_effort cfg))
                         (dict_set ''reasoning_format'' (JStr ''hidden'') d1)
                  else d1))"
  have get: "dict_get ?fd ''messages'' = Some (JArr cleaned)"
    by (simp add: d1 dict_get_pop dict_get_set)
  have "\<forall>k<length msgs. \<exists>m. msgs ! k = JObj m \<and> cleaned ! k = JObj (spec_message m)
                 \<and> map fst (spec_message m)
                     = [''role'', ''content'']
                       @ (if get_truthy m ''name'' then [''name''] else [])"
    using each clean_message_spec spec_message_keys by blast
  with fwd get len show ?thesis by blast
qed

text \<open>
  Claim C4: with the reasoning-hidden flag set, every forwarded body has
  \<open>reasoning_format\<close> with the value \<open>hidden\<close> and \<open>reasoning_effort\<close> with the configured
  effort level, \<open>medium\<close> as well as any other.
\<close>

theorem do_POST_adds_reasoning:
  assumes "fwd \<in> set (snd (do_POST cfg key json_loads urlopen req))"
    and "reasoning_hidden cfg"
  shows "\<exists>fd. fwd = JObj fd
           \<and> dict_get fd ''reasoning_format'' = Some (JStr ''hidden'')
           \<and> dict_get fd ''reasoning_effort'' = Some (JStr (reasoning_effort cfg))"
proof -
  from do_POST_forwarded [OF assms(1)] obtain data where
    "transform_request cfg data = Inr fwd" by blast
  from transform_request_shape [OF this] assms(2) show ?thesis
    by (auto simp: dict_get_pop dict_get_set)
qed

text \<open>
  Claim C5: no forwarded body has the key \<open>tokenized_requests\<close> or the key
  \<open>extra_body\<close>, whatever the parsed input held under them.
\<close>

theorem do_POST_removes_unsupported:
  assumes "fwd \<in> set (snd (do_POST cfg key json_loads urlopen req))"
  shows "\<exists>fd. fwd = JObj fd
           \<and> dict_get fd ''tokenized_requests'' = None
           \<and> dict_get fd ''extra_body'' = None"
proof -
  from do_POST_forwarded [OF assms(1)] obtain data where
    "transform_request cfg data = Inr fwd" by blast
  from transform_request_shape [OF this] show ?thesis
    by (auto simp: dict_get_pop)
qed

text \<open>
  A body on which \<open>json.loads\<close> raises JSONDecodeError is answered with 400 and nothing
  is sent upstream.
\<close>

lemma do_POST_invalid_json:
  assumes "suffix ''/chat/completions'' (req_path req)"
    and "req_content_length req = Some n"
    and "json_loads (req_body req) = Inl JSONDecodeError"
  shows "do_POST cfg key json_loads urlopen req = (SendError 400 ''Invalid JSON'', [])"
  using assms by (simp add: do_POST_def)

text \<open>
  Claim C3 asks for a 400 reply to every body that is not valid JSON. A body that is
  not text in UTF-8, such as the single byte \<open>0xFF\<close>, makes \<open>json.loads\<close> raise
  UnicodeDecodeError, which \<open>except json.JSONDecodeError\<close> does not catch: the exception
  leaves \<open>do_POST\<close>, no status is sent, and nothing is sent upstream.
\<close>

theorem do_POST_undecodable_body:
  assumes "suffix ''/chat/completions'' (req_path req)"
    and "req_content_length req = Some n"
    and "json_loads (req_body req) = Inl UnicodeDecodeError"
  shows "do_POST cfg key json_loads urlopen req = (Uncaught UnicodeDecodeError, [])
         \<and> reply_status (fst (do_POST cfg key json_loads urlopen req)) = None"
  using assms by (simp add: do_POST_def reply_status_def)



lemma example_run:
  "do_POST example_config (Some ''gsk'') (\<lambda>b. Inr (JObj example_data))
     (\<lambda>d. UpstreamOK ''{}'') example_request
   = (SendResponse 200 ''{}'', [example_forwarded])"
  by code_simp

theorem do_POST_normalizes_messages_witness:
  "snd (do_POST example_config (Some ''gsk'') (\<lambda>b. Inr (JObj example_data))
          (\<lambda>d. UpstreamOK ''{}'') example_request) = [example_forwarded]
   \<and> dict_get example_data ''messages'' = Some (JArr example_messages)
   \<and> (\<exists>fd cleaned. example_forwarded = JObj fd
         \<and> dict_get fd ''messages'' = Some (JArr cleaned)
         \<and> length cleaned = length example_messages
         \<and> (\<forall>k<length example_messages.
               \<exists>m. example_messages ! k = JObj m \<and> cleaned ! k = JObj (spec_message m)
                 \<and> map fst (spec_message m)
                     = [''role'', ''content'']
                       @ (if get_truthy m ''name'' then [''name''] else [])))"
proof -
  have 1: "example_forwarded \<in> set (snd (do_POST example_config (Some ''gsk'')
             (\<lambda>b. Inr (JObj example_data)) (\<lambda>d. UpstreamOK ''{}'') example_request))"
    by (simp add: example_run)
  have 2: "(\<lambda>b. Inr (JObj example_data)) (req_body example_request)
             = (Inr (JObj example_data) :: exn + json)" by simp
  have 3: "dict_get example_data ''messages'' = Some (JArr example_messages)"
    by (simp add: dict_get_def example_data_def)
  from do_POST_normalizes_messages [OF 1 2 3] 3 show ?thesis
    by (simp add: example_run)
qed

theorem do_POST_adds_reasoning_witness:
  "reasoning_hidden example_config \<and> reasoning_effort example_config = ''medium''
   \<and> snd (do_POST example_config (Some ''gsk'') (\<lambda>b. Inr (JObj example_data))
          (\<lambda>d. UpstreamOK ''{}'') example_request) = [example_forwarded]
   \<and> (\<exists>fd. example_forwarded = JObj fd
         \<and> dict_get fd ''reasoning_format'' = Some (JStr ''hidden'')
         \<and> dict_get fd ''reasoning_effort'' = Some (JStr ''medium''))"
proof -
  have 1: "example_forwarded \<in> set (snd (do_POST example_config (Some ''gsk'')
             (\<lambda>b. Inr (JObj example_data)) (\<lambda>d. UpstreamOK ''{}'') example_request))"
    by (simp add: example_run)
  have 2: "reasoning_hidden example_config" by (simp add: example_config_def)
  have 3: "reasoning_effort example_config = ''medium''" by (simp add: example_config_def)
  from do_POST_adds_reasoning [OF 1 2] 2 3 show ?thesis
    by (simp add: example_run)
qed

theorem do_POST_removes_unsupported_witness:
  "dict_get example_data ''tokenized_requests'' = Some (JBool False)
   \<and> dict_get example_data ''extra_body'' = Some JNull
   \<and> snd (do_POST example_config (Some ''gsk'') (\<lambda>b. Inr (JObj example_data))
          (\<lambda>d. UpstreamOK ''{}'') example_request) = [example_forwarded]
   \<and> (\<exists>fd. example_forwarded = JObj fd
         \<and> dict_get fd ''tokenized_requests'' = None
         \<and> dict_get fd ''extra_body'' = None)"
proof -
  have 1: "example_forwarded \<in> set (snd (do_POST example_config (Some ''gsk'')
             (\<lambda>b. Inr (JObj example_data)) (\<lambda>d. UpstreamOK ''{}'') example_request))"
    by (simp add: example_run)
  have 2: "dict_get example_data ''tokenized_requests'' = Some (JBool False)"
    "dict_get example_data ''extra_body'' = Some JNull"
    by (simp_all add: dict_get_def example_data_def)
  from do_POST_removes_unsupported [OF 1] 2 show ?thesis
    by (simp add: example_run)
qed

theorem do_POST_undecodable_body_witness:
  "do_POST example_config (Some ''gsk'')
     (\<lambda>b. if b = [CHR 0xFF] then Inl UnicodeDecodeError else Inl JSONDecodeError)
     (\<lambda>d. UpstreamOK ''{}'')
     \<lparr>req_path = ''/v1/chat/completions'', req_content_length = Some 1,
      req_body = [CHR 0xFF]\<rparr>
   = (Uncaught UnicodeDecodeError, [])"
proof -
  let ?req = "\<lparr>req_path = ''/v1/chat/completions'', req_content_length = Some 1,
      req_body = [CHR 0xFF]\<rparr>"
  let ?loads = "\<lambda>b. if b = [CHR 0xFF] then Inl UnicodeDecodeError else Inl JSONDecodeError"
  have 1: "suffix ''/chat/completions'' (req_path ?req)" by code_simp
  have 2: "req_content_length ?req = Some 1" by simp
  have 3: "?loads (req_body ?req) = (Inl UnicodeDecodeError :: exn + json)" by simp
  from do_POST_undecodable_body [where json_loads = ?loads, OF 1 2 3]
  show ?thesis by simp
qed



section \<open>Environment file (load_env in groq_proxy.py)\<close>

text \<open>\<open>os.environ\<close>: the variables that are set, with their values.\<close>

type_synonym environ = "string \<rightharpoonup> string"

text \<open>\<open>s.partition(sep)\<close>: the text before the first \<open>sep\<close>, \<open>sep\<close>, and the text after it.\<close>

definition py_partition :: "string \<Rightarrow> string \<Rightarrow> string \<times> string \<times> string" where
  "py_partition sep s =
     (case split_once sep s of None \<Rightarrow> (s, [], []) | Some (pre, post) \<Rightarrow> (pre, sep, post))"

text \<open>
  \<open>os.environ[key] = value\<close>: a name or a value with a NUL character is refused with
  ValueError.
\<close>

definition environ_set :: "string \<Rightarrow> string \<Rightarrow> environ \<Rightarrow> exn + environ" where
  "environ_set key val env =
     (if CHR 0x00 \<in> set key \<or> CHR 0x00 \<in> set val then Inl ValueError
      else Inr (env(key \<mapsto> val)))"

text \<open>Lines 32 to 38 for one line of the file.\<close>

definition load_line :: "string \<Rightarrow> environ \<Rightarrow> exn + environ" where
  "load_line raw env =
     (let line = py_strip raw in
      if line \<noteq> [] \<and> \<not> prefix ''#'' line \<and> contains ''='' line then
        (case py_partition ''='' line of
           (k, sep, v) \<Rightarrow>
             (let key = py_strip k;
                  val = py_strip_chars [CHR 0x27] (py_strip_chars [CHR 0x22] (py_strip v))
              in if key \<noteq> [] \<and> val \<noteq> [] \<and> env key = None
                 then environ_set key val env
                 else Inr env))
      else Inr env)"

text \<open>
  The loop over the lines. An exception ends it; the variables set before stay set.
\<close>

fun load_lines :: "string list \<Rightarrow> environ \<Rightarrow> exn option \<times> environ" where
  "load_lines [] env = (None, env)"
| "load_lines (line # rest) env =
     (case load_line line env of
        Inl e \<Rightarrow> (Some e, env)
      | Inr env' \<Rightarrow> load_lines rest env')"

text \<open>
  \<open>load_env\<close>: \<open>env_file\<close> is \<open>None\<close> where the file does not exist, and else its lines
  as the iteration over the file yields them.
\<close>

definition load_env :: "string list option \<Rightarrow> environ \<Rightarrow> exn option \<times> environ" where
  "load_env env_file env =
     (case env_file of None \<Rightarrow> (None, env) | Some lines \<Rightarrow> load_lines lines env)"

lemma load_line_keeps: "env k = Some v \<Longrightarrow> load_line raw env = Inr env' \<Longrightarrow> env' k = Some v"
  by (auto simp: load_line_def environ_set_def Let_def split: if_splits prod.splits)

lemma load_lines_keeps: "env k = Some v \<Longrightarrow> snd (load_lines ls env) k = Some v"
proof (induction ls arbitrary: env)
  case Nil
  then show ?case by simp
next
  case (Cons l ls)
  show ?case
  proof (cases "load_line l env")
    case (Inl e)
    with Cons.prems show ?thesis by simp
  next
    case (Inr env')
    from load_line_keeps [OF Cons.prems Inr] have "env' k = Some v" .
    with Cons.IH [of env'] Inr show ?thesis by simp
  qed
qed

lemma load_env_keeps: "env k = Some v \<Longrightarrow> snd (load_env env_file env) k = Some v"
  by (cases env_file) (simp_all add: load_env_def load_lines_keeps)

lemma load_lines_skip:
  assumes "\<And>env. load_line l env = Inr env"
  shows "load_lines (ls @ l # rest) env = load_lines (ls @ rest) env"
proof (induction ls arbitrary: env)
  case Nil
  show ?case by (simp add: assms)
next
  case (Cons x xs)
  show ?case by (cases "load_line x env") (simp_all add: Cons.IH)
qed

lemma dropWhile_snoc_keeps: "\<not> P x \<Longrightarrow> \<exists>ys. dropWhile P (xs @ [x]) = ys @ [x]"
  by (induction xs) auto

lemma py_strip_hash: assumes "prefix ''#'' l" shows "prefix ''#'' (py_strip l)"
proof -
  from assms obtain t where l: "l = CHR ''#'' # t" by (auto simp: prefix_def)
  have ns: "\<not> is_space CHR ''#''" by (simp add: is_space_def)
  from dropWhile_snoc_keeps [of is_space "CHR ''#''" "rev t", OF ns]
  obtain ys where "dropWhile is_space (rev t @ [CHR ''#'']) = ys @ [CHR ''#'']" by blast
  with ns show ?thesis by (simp add: py_strip_def l)
qed

lemma load_line_comment: "prefix ''#'' l \<Longrightarrow> load_line l env = Inr env"
  using py_strip_hash [of l] by (simp add: load_line_def Let_def)

lemma contains_single: "contains [c] s = (c \<in> set s)"
  by (induction s) (auto simp: contains_def split: option.splits)

lemma set_py_strip: "set (py_strip s) \<subseteq> set s"
proof -
  have "set (py_strip s) \<subseteq> set (dropWhile is_space s)"
    unfolding py_strip_def using set_dropWhileD [of _ is_space "rev (dropWhile is_space s)"]
    by auto
  also have "\<dots> \<subseteq> set s" using set_dropWhileD [of _ is_space s] by auto
  finally show ?thesis .
qed

lemma load_line_no_equals: "\<not> contains ''='' l \<Longrightarrow> load_line l env = Inr env"
  using set_py_strip [of l] by (auto simp: load_line_def Let_def contains_single)

lemma strip_wrapped:
  assumes "\<forall>x\<in>set xs. P x" and "\<forall>y\<in>set ys. P y"
    and "v \<noteq> []" and "\<not> P (hd v)" and "\<not> P (last v)"
  shows "rev (dropWhile P (rev (dropWhile P (xs @ v @ ys)))) = v"
proof -
  from assms(3,4) have hv: "dropWhile P (v @ ys) = v @ ys" by (cases v) auto
  from assms(1) have "dropWhile P (xs @ (v @ ys)) = dropWhile P (v @ ys)"
    by (intro dropWhile_append2) auto
  with hv have 1: "dropWhile P (xs @ v @ ys) = v @ ys" by simp
  from assms(3,5) have "dropWhile P (rev v) = rev v"
    by (cases v rule: rev_cases) auto
  moreover from assms(2) have "dropWhile P (rev ys @ rev v) = dropWhile P (rev v)"
    by (intro dropWhile_append2) auto
  ultimately have "dropWhile P (rev ys @ rev v) = rev v" by simp
  with 1 show ?thesis by simp
qed

lemma strip_unwrapped:
  assumes "v \<noteq> []" and "\<not> P (hd v)" and "\<not> P (last v)"
  shows "rev (dropWhile P (rev (dropWhile P v))) = v"
  using strip_wrapped [of "[]" P "[]" v] assms by simp

lemma split_once_first:
  "sep \<noteq> [] \<Longrightarrow> hd sep \<notin> set k \<Longrightarrow> split_once sep (k @ sep @ rest) = Some (k, rest)"
proof (induction k)
  case Nil
  then show ?case by (cases sep) auto
next
  case (Cons x k)
  then have "\<not> prefix sep (x # k @ sep @ rest)" by (cases sep) auto
  with Cons show ?case by simp
qed

lemma load_line_quoted:
  assumes k: "k \<noteq> []" "\<not> is_space (hd k)" "\<not> is_space (last k)" "CHR ''='' \<notin> set k"
      "\<not> prefix ''#'' k" "CHR 0x00 \<notin> set k"
    and v: "v \<noteq> []" "hd v \<noteq> CHR 0x22" "hd v \<noteq> CHR 0x27" "last v \<noteq> CHR 0x22"
      "last v \<noteq> CHR 0x27" "CHR 0x00 \<notin> set v"
    and q: "q = CHR 0x22 \<or> q = CHR 0x27"
    and env: "env k = None"
  shows "load_line (k @ ''='' @ [q] @ v @ [q]) env = Inr (env(k \<mapsto> v))"
proof -
  let ?line = "k @ ''='' @ [q] @ v @ [q]"
  have nsq: "\<not> is_space q" using q by (auto simp: is_space_def)
  have hl: "hd ?line = hd k" "last ?line = q" using k(1) by simp_all
  have line: "py_strip ?line = ?line"
    unfolding py_strip_def
    by (rule strip_unwrapped) (use k nsq hl in \<open>simp_all del: append_assoc\<close>)
  have nh: "\<not> prefix ''#'' ?line" using k(1,5) by (cases k) auto
  have c: "contains ''='' ?line" by (simp add: contains_single)
  have p: "py_partition ''='' ?line = (k, ''='', [q] @ v @ [q])"
    using split_once_first [of "''=''" k "[q] @ v @ [q]"] k(4)
    by (simp add: py_partition_def)
  have key: "py_strip k = k" unfolding py_strip_def by (rule strip_unwrapped) (use k in simp_all)
  have v1: "py_strip ([q] @ v @ [q]) = [q] @ v @ [q]"
    unfolding py_strip_def by (rule strip_unwrapped) (use nsq in simp_all)
  have v3: "py_strip_chars [CHR 0x27] (py_strip_chars [CHR 0x22] ([q] @ v @ [q])) = v"
  proof (cases "q = CHR 0x22")
    case True
    have "py_strip_chars [CHR 0x22] ([q] @ v @ [q]) = v"
      unfolding py_strip_chars_def by (rule strip_wrapped) (use True v in simp_all)
    moreover have "py_strip_chars [CHR 0x27] v = v"
      unfolding py_strip_chars_def by (rule strip_unwrapped) (use v in simp_all)
    ultimately show ?thesis by simp
  next
    case False
    with q have q': "q = CHR 0x27" by simp
    have "py_strip_chars [CHR 0x22] ([q] @ v @ [q]) = [q] @ v @ [q]"
      unfolding py_strip_chars_def by (rule strip_unwrapped) (use q' in simp_all)
    moreover have "py_strip_chars [CHR 0x27] ([q] @ v @ [q]) = v"
      unfolding py_strip_chars_def by (rule strip_wrapped) (use q' v in simp_all)
    ultimately show ?thesis by simp
  qed
  have ne: "?line \<noteq> []" using k(1) by simp
  show ?thesis
    unfolding load_line_def Let_def line p
    using ne nh c key v1 v3 v(1,6) k(1,6) env
    by (simp add: environ_set_def del: append_assoc append.simps)
qed

text \<open>
  Claim C9: loading the environment file is first-set-wins. A variable that is set,
  in the process environment or by an earlier line, keeps its value whatever the
  later lines say; a line starting with \<open>#\<close> and a line without \<open>=\<close> change nothing
  and can be left out of the file; and a line \<open>KEY="value"\<close> or \<open>KEY='value'\<close> for an
  unset key sets the key to the value without the surrounding quotes.
\<close>

theorem load_env_first_set_wins:
  "(env k = Some v \<longrightarrow> snd (load_env env_file env) k = Some v)
   \<and> (load_line l env = Inr env' \<and> env' k = Some v \<longrightarrow>
        snd (load_env (Some (l # rest)) env) k = Some v)
   \<and> (prefix ''#'' l \<or> \<not> contains ''='' l \<longrightarrow>
        load_line l env = Inr env
        \<and> load_env (Some (ls @ l # rest)) env = load_env (Some (ls @ rest)) env)
   \<and> (key \<noteq> [] \<and> \<not> is_space (hd key) \<and> \<not> is_space (last key) \<and> CHR ''='' \<notin> set key
        \<and> \<not> prefix ''#'' key \<and> CHR 0x00 \<notin> set key
        \<and> val \<noteq> [] \<and> hd val \<noteq> CHR 0x22 \<and> hd val \<noteq> CHR 0x27 \<and> last val \<noteq> CHR 0x22
        \<and> last val \<noteq> CHR 0x27 \<and> CHR 0x00 \<notin> set val
        \<and> (q = CHR 0x22 \<or> q = CHR 0x27) \<and> env key = None \<longrightarrow>
        load_line (key @ ''='' @ [q] @ val @ [q]) env = Inr (env(key \<mapsto> val)))"
proof (intro conjI impI)
  assume "env k = Some v"
  then show "snd (load_env env_file env) k = Some v" by (rule load_env_keeps)
next
  assume "load_line l env = Inr env' \<and> env' k = Some v"
  then show "snd (load_env (Some (l # rest)) env) k = Some v"
    by (simp add: load_env_def load_lines_keeps)
next
  assume a: "prefix ''#'' l \<or> \<not> contains ''='' l"
  then have skip: "\<And>env. load_line l env = Inr env"
    using load_line_comment load_line_no_equals by blast
  then show "load_line l env = Inr env" .
  from load_lines_skip [of l ls rest env, OF skip]
  show "load_env (Some (ls @ l # rest)) env = load_env (Some (ls @ rest)) env"
    by (simp add: load_env_def)
next
  assume "key \<noteq> [] \<and> \<not> is_space (hd key) \<and> \<not> is_space (last key) \<and> CHR ''='' \<notin> set key
        \<and> \<not> prefix ''#'' key \<and> CHR 0x00 \<notin> set key
        \<and> val \<noteq> [] \<and> hd val \<noteq> CHR 0x22 \<and> hd val \<noteq> CHR 0x27 \<and> last val \<noteq> CHR 0x22
        \<and> last val \<noteq> CHR 0x27 \<and> CHR 0x00 \<notin> set val
        \<and> (q = CHR 0x22 \<or> q = CHR 0x27) \<and> env key = None"
  then show "load_line (key @ ''='' @ [q] @ val @ [q]) env = Inr (env(key \<mapsto> val))"
    by (intro load_line_quoted) simp_all
qed

theorem load_env_first_set_wins_witness:
  "snd (load_env (Some [''GROQ_API_KEY=from_file'', ''# note'', ''PORT=1''])
         [''GROQ_API_KEY'' \<mapsto> ''gsk_set'']) ''GROQ_API_KEY'' = Some ''gsk_set''
   \<and> snd (load_env (Some [''PORT=1'', ''PORT=2'']) Map.empty) ''PORT'' = Some ''1''
   \<and> load_env (Some [''PORT=1'', ''# PORT=2'', ''PORT=3'']) Map.empty
       = load_env (Some [''PORT=1'', ''PORT=3'']) Map.empty
   \<and> load_line (''GROQ_API_KEY'' @ ''='' @ [CHR 0x22] @ ''gsk 1'' @ [CHR 0x22]) Map.empty
       = Inr [''GROQ_API_KEY'' \<mapsto> ''gsk 1'']"
proof -
  let ?env = "[''GROQ_API_KEY'' \<mapsto> ''gsk_set'']"
  have 1: "?env ''GROQ_API_KEY'' = Some ''gsk_set''" by simp
  have a: "snd (load_env (Some [''GROQ_API_KEY=from_file'', ''# note'', ''PORT=1'']) ?env)
             ''GROQ_API_KEY'' = Some ''gsk_set''"
    using load_env_first_set_wins
      [where env = ?env and k = "''GROQ_API_KEY''" and v = "''gsk_set''"
         and env_file = "Some [''GROQ_API_KEY=from_file'', ''# note'', ''PORT=1'']"] 1
    by blast
  have p1: "load_line ''PORT=1'' Map.empty = Inr [''PORT'' \<mapsto> ''1'']"
    by (simp add: load_line_def py_strip_def is_space_def contains_single py_partition_def
          py_strip_chars_def environ_set_def)
  have p2: "[''PORT'' \<mapsto> ''1''] ''PORT'' = Some ''1''" by simp
  have b: "snd (load_env (Some [''PORT=1'', ''PORT=2'']) Map.empty) ''PORT'' = Some ''1''"
    using load_env_first_set_wins
      [where env = Map.empty and k = "''PORT''" and v = "''1''" and l = "''PORT=1''"
         and env' = "[''PORT'' \<mapsto> ''1'']" and rest = "[''PORT=2'']"]
      p1 p2
    by blast
  have 3: "prefix ''#'' ''# PORT=2''" by simp
  have c: "load_env (Some [''PORT=1'', ''# PORT=2'', ''PORT=3'']) Map.empty
       = load_env (Some [''PORT=1'', ''PORT=3'']) Map.empty"
    using load_env_first_set_wins
      [where env = Map.empty and l = "''# PORT=2''" and rest = "[''PORT=3'']"
         and ls = "[''PORT=1'']"] 3
    by simp
  have 4: "''GROQ_API_KEY'' \<noteq> [] \<and> \<not> is_space (hd ''GROQ_API_KEY'')
        \<and> \<not> is_space (last ''GROQ_API_KEY'') \<and> CHR ''='' \<notin> set ''GROQ_API_KEY''
        \<and> \<not> prefix ''#'' ''GROQ_API_KEY'' \<and> CHR 0x00 \<notin> set ''GROQ_API_KEY''
        \<and> ''gsk 1'' \<noteq> [] \<and> hd ''gsk 1'' \<noteq> CHR 0x22 \<and> hd ''gsk 1'' \<noteq> CHR 0x27
        \<and> last ''gsk 1'' \<noteq> CHR 0x22 \<and> last ''gsk 1'' \<noteq> CHR 0x27
        \<and> CHR 0x00 \<notin> set ''gsk 1''
        \<and> (CHR 0x22 = CHR 0x22 \<or> CHR 0x22 = CHR 0x27)
        \<and> (Map.empty :: environ) ''GROQ_API_KEY'' = None"
    by (simp add: is_space_def)
  have d: "load_line (''GROQ_API_KEY'' @ ''='' @ [CHR 0x22] @ ''gsk 1'' @ [CHR 0x22]) Map.empty
       = Inr [''GROQ_API_KEY'' \<mapsto> ''gsk 1'']"
    using load_env_first_set_wins
      [where env = Map.empty and key = "''GROQ_API_KEY''" and val = "''gsk 1''"
         and q = "CHR 0x22"] 4
    by blast
  from a b c d show ?thesis by blast
qed

end
